theory Spec2Isabelle
  imports Complex_Main "HOL-Library.AList"
begin

section \<open>The furniture viewer of \<open>src/main.js\<close>: sliding doors and drawers\<close>

text \<open>
  The viewer keeps module-level registries of door and drawer groups found in the loaded
  scene graph, toggles them with timed animations, and reacts to the pointer. The model
  below follows the source function by function. Three parts of the browser and of the
  graphics libraries are made explicit:
  \<^item> the scene graph is a tree of objects, each with a \<open>uuid\<close>, a name and (for meshes)
    the bounding box of its geometry; the mutable local position of every
    object lives in a store indexed by \<open>uuid\<close>;
  \<^item> \<open>setTimeout\<close> and \<open>gsap.to\<close> append an event with its due time (milliseconds) to a
    list of pending events; a scheduler fires the pending events in order of due time;
  \<^item> JavaScript numbers are read as real numbers.
\<close>

subsection \<open>Vectors, boxes and the scene graph\<close>

datatype vector3 = Vector3 (vx: real) (vy: real) (vz: real)

type_synonym box3 = "vector3 \<times> vector3"

text \<open>
  An object is a mesh exactly when it carries a geometry; \<open>geometry\<close> is then the bounding
  box of that geometry in the object's own frame.
\<close>

datatype object3d =
  Object3D (uuid: nat) (name: string) (geometry: "box3 option") (children: "object3d list")

definition isMesh :: "object3d \<Rightarrow> bool" where
  "isMesh obj = (geometry obj \<noteq> None)"

definition vadd :: "vector3 \<Rightarrow> vector3 \<Rightarrow> vector3" where
  "vadd a b = Vector3 (vx a + vx b) (vy a + vy b) (vz a + vz b)"

definition vsub :: "vector3 \<Rightarrow> vector3 \<Rightarrow> vector3" where
  "vsub a b = Vector3 (vx a - vx b) (vy a - vy b) (vz a - vz b)"

definition vmin :: "vector3 \<Rightarrow> vector3 \<Rightarrow> vector3" where
  "vmin a b = Vector3 (min (vx a) (vx b)) (min (vy a) (vy b)) (min (vz a) (vz b))"

definition vmax :: "vector3 \<Rightarrow> vector3 \<Rightarrow> vector3" where
  "vmax a b = Vector3 (max (vx a) (vx b)) (max (vy a) (vy b)) (max (vz a) (vz b))"

text \<open>
  \<open>Box3.union\<close> with the empty box as \<open>None\<close>, and a box moved by a world offset.
\<close>

definition box_union :: "box3 option \<Rightarrow> box3 \<Rightarrow> box3 option" where
  "box_union acc b =
     (case acc of None \<Rightarrow> Some b
      | Some a \<Rightarrow> Some (vmin (fst a) (fst b), vmax (snd a) (snd b)))"

definition box_translate :: "vector3 \<Rightarrow> box3 \<Rightarrow> box3" where
  "box_translate w b = (vadd w (fst b), vadd w (snd b))"

text \<open>
  \<open>Box3.expandByObject\<close>: the box grows by the geometry of the object and of all its
  descendants, each placed at its world position. The world position of an object is the
  sum of the local positions on the path from the root (rotation and scale are not part of
  this model: the viewer only ever translates its panels).
\<close>

fun expandByObject ::
  "(nat \<Rightarrow> vector3) \<Rightarrow> vector3 \<Rightarrow> object3d \<Rightarrow> box3 option \<Rightarrow> box3 option" where
  "expandByObject pos off (Object3D u n g cs) acc =
     (let w = vadd off (pos u);
          acc' = (case g of None \<Rightarrow> acc | Some b \<Rightarrow> box_union acc (box_translate w b))
      in fold (expandByObject pos w) cs acc')"

text \<open>
  Finding an object in the tree by its \<open>uuid\<close>, together with the world position of its
  parent.
\<close>

fun first_some :: "('a \<Rightarrow> 'b option) \<Rightarrow> 'a list \<Rightarrow> 'b option" where
  "first_some f [] = None"
| "first_some f (a # as) = (case f a of Some b \<Rightarrow> Some b | None \<Rightarrow> first_some f as)"

lemma first_some_cong [fundef_cong]:
  "xs = ys \<Longrightarrow> (\<And>a. a \<in> set ys \<Longrightarrow> f a = g a) \<Longrightarrow> first_some f xs = first_some g ys"
  by (induction ys arbitrary: xs) (auto split: option.splits)

fun locate ::
  "(nat \<Rightarrow> vector3) \<Rightarrow> vector3 \<Rightarrow> object3d \<Rightarrow> nat \<Rightarrow> (vector3 \<times> object3d) option" where
  "locate pos off (Object3D u n g cs) k =
     (if u = k then Some (off, Object3D u n g cs)
      else first_some (\<lambda>c. locate pos (vadd off (pos u)) c k) cs)"

text \<open>\<open>new THREE.Box3().setFromObject(obj)\<close> and \<open>getSize\<close> (zero for the empty box).\<close>

definition setFromObject :: "object3d option \<Rightarrow> (nat \<Rightarrow> vector3) \<Rightarrow> nat \<Rightarrow> box3 option" where
  "setFromObject model pos k =
     (case model of None \<Rightarrow> None
      | Some scene \<Rightarrow>
          (case locate pos (Vector3 0 0 0) scene k of None \<Rightarrow> None
           | Some (off, obj) \<Rightarrow> expandByObject pos off obj None))"

definition getSize :: "box3 option \<Rightarrow> vector3" where
  "getSize b = (case b of None \<Rightarrow> Vector3 0 0 0 | Some (lo, hi) \<Rightarrow> vsub hi lo)"

text \<open>
  The chain of an object's ancestors, the object itself first and the root last: what
  the walks \<open>while (m && !doors.includes(m)) m = m.parent\<close> go along.
\<close>

fun ancestry :: "object3d \<Rightarrow> nat \<Rightarrow> nat list option" where
  "ancestry (Object3D u n g cs) k =
     (if u = k then Some [u]
      else (case first_some (\<lambda>c. ancestry c k) cs of None \<Rightarrow> None
            | Some p \<Rightarrow> Some (p @ [u])))"

text \<open>\<open>model.traverse\<close>: every object in depth-first pre-order, with its parent.\<close>

fun traverse :: "object3d option \<Rightarrow> object3d \<Rightarrow> (object3d \<times> object3d option) list" where
  "traverse parent (Object3D u n g cs) =
     (Object3D u n g cs, parent)
       # concat (map (traverse (Some (Object3D u n g cs))) cs)"

subsection \<open>The registries and the pending events\<close>

datatype axis = AxisX | AxisZ

datatype error = TypeError

text \<open>
  A callback handed to \<open>setTimeout\<close> closes over the panel's index, the panel and the
  value of \<open>isOpen\<close> read when the toggle was requested. \<open>Map.get\<close> answers
  \<open>undefined\<close> for a missing key, so such a value is a \<open>bool option\<close>. The two state maps
  are association lists in insertion order (the source also lists their values); the maps
  that are only looked up are partial functions.
\<close>

datatype callback =
  ProceedToggleDoor nat nat "bool option"
| ProceedToggleDrawer nat nat "bool option"

text \<open>
  The \<open>onComplete\<close> of a tween: which state map it writes, for which object, the button
  index, and the new state.
\<close>

datatype on_complete =
  DoorComplete nat nat bool
| DrawerComplete nat nat bool

text \<open>
  A running tween moves one coordinate of one object to its target and then runs its
  \<open>onComplete\<close>. The target is \<open>None\<close> when the source computes it from a missing
  registry entry (then it is not a number).
\<close>

datatype event =
  Timeout callback
| Tween nat axis "real option" on_complete

record viewer =
  doors :: "nat list"
  doorStates :: "(nat \<times> bool) list"
  doorOriginalX :: "nat \<rightharpoonup> real"
  drawers :: "nat list"
  drawerStates :: "(nat \<times> bool) list"
  drawerOriginalZ :: "nat \<rightharpoonup> real"
  drawerOriginalX :: "nat \<rightharpoonup> real"
  modelRef :: "object3d option"
  position :: "nat \<Rightarrow> vector3"
  clock :: nat
  pending :: "(nat \<times> event) list"
  doorButtons :: "nat \<rightharpoonup> bool"
  drawerButtons :: "nat \<rightharpoonup> bool"
  pointerClass :: bool
  tooltipText :: "(nat \<times> bool) option"
  tooltipVisible :: bool

text \<open>Array indexing: \<open>xs[i]\<close> is \<open>undefined\<close> out of range.\<close>

definition item :: "'a list \<Rightarrow> nat \<Rightarrow> 'a option" where
  "item xs i = (if i < length xs then Some (xs ! i) else None)"

text \<open>Truthiness of a state read from a map: \<open>undefined\<close> and \<open>false\<close> are falsy.\<close>

definition truthy :: "bool option \<Rightarrow> bool" where
  "truthy v = (v = Some True)"

definition setTimeout :: "callback \<Rightarrow> nat \<Rightarrow> viewer \<Rightarrow> viewer" where
  "setTimeout cb delay st = st\<lparr>pending := pending st @ [(clock st + delay, Timeout cb)]\<rparr>"

text \<open>\<open>gsap.to(obj.position, {x or z: target, duration, onComplete})\<close>.\<close>

definition gsap_to ::
  "nat \<Rightarrow> axis \<Rightarrow> real option \<Rightarrow> nat \<Rightarrow> on_complete \<Rightarrow> viewer \<Rightarrow> viewer" where
  "gsap_to obj ax target duration fin st =
     st\<lparr>pending := pending st @ [(clock st + duration, Tween obj ax target fin)]\<rparr>"

subsection \<open>The door and drawer toggles\<close>

text \<open>
  \<open>drawerToDoorMap\<close>: drawer 0 is behind door 0, drawers 1 to 5 behind door 1. Its keys in
  the order \<open>Object.keys\<close> lists them.
\<close>

definition drawerToDoorMap :: "nat \<rightharpoonup> nat" where
  "drawerToDoorMap k = (if k = 0 then Some 0 else if k \<le> 5 then Some 1 else None)"

definition drawerToDoorKeys :: "nat list" where
  "drawerToDoorKeys = [0, 1, 2, 3, 4, 5]"

definition getSlidingAmount :: "viewer \<Rightarrow> nat \<Rightarrow> nat \<Rightarrow> real" where
  "getSlidingAmount st door index =
     (let size = getSize (setFromObject (modelRef st) (position st) door);
          doorWidth = max (vx size) (vz size)
      in doorWidth * 0.95)"

definition getDrawerPullAmount :: "viewer \<Rightarrow> nat \<Rightarrow> nat \<Rightarrow> real" where
  "getDrawerPullAmount st drawer index =
     (let size = getSize (setFromObject (modelRef st) (position st) drawer)
      in max (vz size) (vx size) * 0.35)"

definition proceedToggleDoor :: "nat \<Rightarrow> nat \<Rightarrow> bool option \<Rightarrow> viewer \<Rightarrow> viewer" where
  "proceedToggleDoor index door isOpen st =
     (let originalX = doorOriginalX st door;
          slideAmount = getSlidingAmount st door index;
          direction = (if index = 0 then - 1 else if index = 1 then - 1 else 1);
          targetX = (if truthy isOpen then originalX
                     else map_option (\<lambda>ox. ox + slideAmount * direction) originalX)
      in gsap_to door AxisX targetX 1200 (DoorComplete door index (\<not> truthy isOpen)) st)"

definition proceedToggleDrawer :: "nat \<Rightarrow> nat \<Rightarrow> bool option \<Rightarrow> viewer \<Rightarrow> viewer" where
  "proceedToggleDrawer index drawer isOpen st =
     (let pullAmount = getDrawerPullAmount st drawer index;
          isTopDrawer = (index = 0 \<or> index = 1)
      in if isTopDrawer then
           (let originalX = drawerOriginalX st drawer;
                startX = (case originalX of Some ox \<Rightarrow> ox | None \<Rightarrow> vx (position st drawer));
                targetX = (if truthy isOpen then startX else startX - pullAmount)
            in gsap_to drawer AxisX (Some targetX) 800
                 (DrawerComplete drawer index (\<not> truthy isOpen)) st)
         else
           (let originalZ = drawerOriginalZ st drawer;
                targetZ = (if truthy isOpen then originalZ
                           else map_option (\<lambda>oz. oz + pullAmount) originalZ)
            in gsap_to drawer AxisZ targetZ 800
                 (DrawerComplete drawer index (\<not> truthy isOpen)) st))"

text \<open>
  A call either returns or throws; either way the mutations made so far stay in the state.
\<close>

datatype outcome = Returned viewer | Threw error viewer

fun state_of :: "outcome \<Rightarrow> viewer" where
  "state_of (Returned st) = st"
| "state_of (Threw e st) = st"

fun threw :: "outcome \<Rightarrow> bool" where
  "threw (Returned st) = False"
| "threw (Threw e st) = True"

text \<open>\<open>Array.forEach\<close> with a callback that may throw: the first throw ends the loop.\<close>

fun forEach :: "('a \<Rightarrow> viewer \<Rightarrow> outcome) \<Rightarrow> 'a list \<Rightarrow> viewer \<Rightarrow> outcome" where
  "forEach f [] st = Returned st"
| "forEach f (a # as) st =
     (case f a st of Threw e st' \<Rightarrow> Threw e st' | Returned st' \<Rightarrow> forEach f as st')"

lemma forEach_cong [fundef_cong]:
  "xs = ys \<Longrightarrow> st = st' \<Longrightarrow> (\<And>a s. a \<in> set ys \<Longrightarrow> f a s = g a s)
   \<Longrightarrow> forEach f xs st = forEach g ys st'"
  by (induction ys arbitrary: xs st st') (auto split: outcome.splits)

text \<open>
  \<open>toggleDoor\<close> and \<open>toggleDrawer\<close> call each other. Reading \<open>door.uuid\<close> of a door that
  is not there throws a \<open>TypeError\<close>.
\<close>

function toggleDoor :: "nat \<Rightarrow> viewer \<Rightarrow> outcome"
  and toggleDrawer :: "nat \<Rightarrow> bool \<Rightarrow> viewer \<Rightarrow> outcome" where
  "toggleDoor index st =
     (case item (doors st) index of
        None \<Rightarrow> Returned st
      | Some door \<Rightarrow>
          (let isOpen = map_of (doorStates st) door in
           if truthy isOpen then
             (let dependentDrawers =
                    filter (\<lambda>dIndex. drawerToDoorMap dIndex = Some index \<and>
                              (case item (drawers st) dIndex of None \<Rightarrow> False
                               | Some drawer \<Rightarrow> truthy (map_of (drawerStates st) drawer)))
                      drawerToDoorKeys
              in if dependentDrawers \<noteq> [] then
                   (case forEach (\<lambda>dIdx. toggleDrawer dIdx True) dependentDrawers st of
                      Threw e st' \<Rightarrow> Threw e st'
                    | Returned st' \<Rightarrow>
                        Returned (setTimeout (ProceedToggleDoor index door isOpen) 800 st'))
                 else Returned (proceedToggleDoor index door isOpen st))
           else Returned (proceedToggleDoor index door isOpen st)))"
| "toggleDrawer index forceClose st =
     (case item (drawers st) index of
        None \<Rightarrow> Returned st
      | Some drawer \<Rightarrow>
          (let isOpen = map_of (drawerStates st) drawer in
           if \<not> truthy isOpen \<and> \<not> forceClose then
             (case drawerToDoorMap index of
                None \<Rightarrow> Returned (proceedToggleDrawer index drawer isOpen st)
              | Some dependentDoorIndex \<Rightarrow>
                  (case item (doors st) dependentDoorIndex of
                     None \<Rightarrow> Threw TypeError st
                   | Some door \<Rightarrow>
                       (let isDoorOpen = map_of (doorStates st) door in
                        if \<not> truthy isDoorOpen then
                          (case toggleDoor dependentDoorIndex st of
                             Threw e st' \<Rightarrow> Threw e st'
                           | Returned st' \<Rightarrow>
                               Returned
                                 (setTimeout (ProceedToggleDrawer index drawer isOpen) 900 st'))
                        else Returned (proceedToggleDrawer index drawer isOpen st))))
           else Returned (proceedToggleDrawer index drawer isOpen st)))"
  by pat_completeness auto
termination
  by (relation "measure (\<lambda>c. case c of Inl (index, st) \<Rightarrow> Suc 0
                               | Inr (index, forceClose, st) \<Rightarrow> (if forceClose then 0 else 2))")
     auto


definition toggleAllDrawers :: "viewer \<Rightarrow> outcome" where
  "toggleAllDrawers st =
     (let allClosed = list_all (\<lambda>s. \<not> s) (map snd (drawerStates st)) in
      forEach (\<lambda>(drawer, index) st'.
                 (let currentState = map_of (drawerStates st') drawer in
                  if allClosed \<or> truthy currentState then toggleDrawer index False st'
                  else Returned st'))
        (zip (drawers st) [0 ..< length (drawers st)]) st)"

subsection \<open>Firing the pending events\<close>

text \<open>
  \<open>updateButtonState\<close> and \<open>updateDrawerButtonState\<close>: the button of that index, when there
  is one, gets or loses the class \<open>active\<close>.
\<close>

definition updateButtonState :: "nat \<Rightarrow> bool \<Rightarrow> viewer \<Rightarrow> viewer" where
  "updateButtonState index isOpen st =
     (case doorButtons st index of None \<Rightarrow> st
      | Some b \<Rightarrow> st\<lparr>doorButtons := (doorButtons st)(index \<mapsto> isOpen)\<rparr>)"

definition updateDrawerButtonState :: "nat \<Rightarrow> bool \<Rightarrow> viewer \<Rightarrow> viewer" where
  "updateDrawerButtonState index isOpen st =
     (case drawerButtons st index of None \<Rightarrow> st
      | Some b \<Rightarrow> st\<lparr>drawerButtons := (drawerButtons st)(index \<mapsto> isOpen)\<rparr>)"

definition set_coord :: "axis \<Rightarrow> real \<Rightarrow> vector3 \<Rightarrow> vector3" where
  "set_coord ax v p = (case ax of AxisX \<Rightarrow> Vector3 v (vy p) (vz p)
                       | AxisZ \<Rightarrow> Vector3 (vx p) (vy p) v)"

definition coord :: "axis \<Rightarrow> vector3 \<Rightarrow> real" where
  "coord ax p = (case ax of AxisX \<Rightarrow> vx p | AxisZ \<Rightarrow> vz p)"

text \<open>
  The end of a tween: the coordinate is at its target, then \<open>onComplete\<close> runs. The store
  keeps the coordinate a panel has at rest; while a tween runs, the coordinate on screen
  is between the stored one and the target. A target that is not a number moves nothing
  here; no registered panel has one.
\<close>

fun onComplete :: "on_complete \<Rightarrow> viewer \<Rightarrow> viewer" where
  "onComplete (DoorComplete door index newState) st =
     updateButtonState index newState
       (st\<lparr>doorStates := AList.update door newState (doorStates st)\<rparr>)"
| "onComplete (DrawerComplete drawer index newState) st =
     updateDrawerButtonState index newState
       (st\<lparr>drawerStates := AList.update drawer newState (drawerStates st)\<rparr>)"

fun fire :: "event \<Rightarrow> viewer \<Rightarrow> viewer" where
  "fire (Timeout (ProceedToggleDoor index door isOpen)) st =
     proceedToggleDoor index door isOpen st"
| "fire (Timeout (ProceedToggleDrawer index drawer isOpen)) st =
     proceedToggleDrawer index drawer isOpen st"
| "fire (Tween obj ax target fin) st =
     onComplete fin
       (case target of None \<Rightarrow> st
        | Some v \<Rightarrow> st\<lparr>position := (position st)(obj := set_coord ax v (position st obj))\<rparr>)"

text \<open>
  The scheduler takes the pending event with the least due time, the one that was
  scheduled first among equals.
\<close>

fun min_due :: "(nat \<times> event) list \<Rightarrow> nat option" where
  "min_due [] = None"
| "min_due ((d, e) # ps) =
     (case min_due ps of None \<Rightarrow> Some d | Some d' \<Rightarrow> Some (min d d'))"

fun take_due :: "nat \<Rightarrow> (nat \<times> event) list \<Rightarrow> (event \<times> (nat \<times> event) list) option" where
  "take_due d [] = None"
| "take_due d ((d', e) # ps) =
     (if d' = d then Some (e, ps)
      else (case take_due d ps of None \<Rightarrow> None
            | Some (e', ps') \<Rightarrow> Some (e', (d', e) # ps')))"

definition next_event :: "(nat \<times> event) list \<Rightarrow> (nat \<times> event \<times> (nat \<times> event) list) option" where
  "next_event ps =
     (case min_due ps of None \<Rightarrow> None
      | Some d \<Rightarrow> (case take_due d ps of None \<Rightarrow> None
                   | Some (e, ps') \<Rightarrow> Some (d, e, ps')))"

fun weight :: "event \<Rightarrow> nat" where
  "weight (Timeout cb) = 2"
| "weight (Tween obj ax target fin) = 1"

definition load_of :: "(nat \<times> event) list \<Rightarrow> nat" where
  "load_of ps = sum_list (map (\<lambda>p. weight (snd p)) ps)"

lemma take_due_load: "take_due d ps = Some (e, ps') \<Longrightarrow> load_of ps = weight e + load_of ps'"
  by (induction ps arbitrary: ps') (auto simp: load_of_def split: if_splits option.splits)

lemma next_event_load: "next_event ps = Some (d, e, ps') \<Longrightarrow> load_of ps = weight e + load_of ps'"
  by (auto simp: next_event_def take_due_load split: option.splits)

lemma onComplete_pending [simp]: "pending (onComplete fin st) = pending st"
  by (cases fin) (auto simp: updateButtonState_def updateDrawerButtonState_def split: option.splits)

lemma fire_load: "load_of (pending (fire e st)) < weight e + load_of (pending st)"
proof (cases e)
  case (Timeout cb)
  then show ?thesis
    by (cases cb)
       (auto simp: load_of_def proceedToggleDoor_def proceedToggleDrawer_def gsap_to_def Let_def)
next
  case (Tween obj ax target fin)
  then show ?thesis by (cases target) auto
qed

text \<open>
  Time passes up to a horizon (\<open>None\<close>: until nothing is pending): every event due by then
  fires at its due time.
\<close>

definition due_by :: "nat option \<Rightarrow> nat \<Rightarrow> bool" where
  "due_by horizon d = (case horizon of None \<Rightarrow> True | Some t \<Rightarrow> d \<le> t)"

function run_until :: "nat option \<Rightarrow> viewer \<Rightarrow> viewer" where
  "run_until horizon st =
     (case next_event (pending st) of
        None \<Rightarrow> (case horizon of None \<Rightarrow> st | Some t \<Rightarrow> st\<lparr>clock := max (clock st) t\<rparr>)
      | Some (d, e, ps) \<Rightarrow>
          if due_by horizon d
          then run_until horizon (fire e (st\<lparr>pending := ps, clock := d\<rparr>))
          else (case horizon of None \<Rightarrow> st | Some t \<Rightarrow> st\<lparr>clock := max (clock st) t\<rparr>))"
  by pat_completeness auto
termination
proof (relation "measure (\<lambda>(horizon, st). load_of (pending st))", goal_cases)
  case 1
  show ?case by simp
next
  case (2 horizon st x2 d y e ps)
  have "load_of (pending (fire e (st\<lparr>pending := ps, clock := d\<rparr>))) < weight e + load_of ps"
    using fire_load [of e "st\<lparr>pending := ps, clock := d\<rparr>"] by simp
  moreover have "load_of (pending st) = weight e + load_of ps"
    using 2 next_event_load [of "pending st" d e ps] by auto
  ultimately show ?case by simp
qed

definition settle :: "viewer \<Rightarrow> viewer" where
  "settle st = run_until None st"

subsection \<open>Discovery of the panels when the model has loaded\<close>

definition doorNames :: "string list" where
  "doorNames = [''Box2449'', ''Box2448'', ''Box2442'']"

definition drawerNames :: "string list" where
  "drawerNames = [''Plane093'', ''Box66787356'', ''Box66787348'', ''Rectangle010'',
                  ''Box66787350'', ''Rectangle012'']"

fun indexOf :: "'a list \<Rightarrow> 'a \<Rightarrow> nat option" where
  "indexOf [] a = None"
| "indexOf (b # bs) a = (if b = a then Some 0 else map_option Suc (indexOf bs a))"

datatype entry = Entry (e_mesh: nat) (e_index: nat) (e_name: string)

record scan =
  doorData :: "entry list"
  foundDoorParents :: "string set"
  drawerData :: "entry list"
  foundDrawerParents :: "string set"

text \<open>
  The callback of \<open>model.traverse\<close>. Only meshes are looked at; what is matched against the
  name tables, and remembered in the sets, is the name of the mesh's parent; what is
  stored is the parent.
\<close>

definition visit :: "object3d \<times> object3d option \<Rightarrow> scan \<Rightarrow> scan" where
  "visit cp sc =
     (let child = fst cp; parent = snd cp in
      if isMesh child then
        (let parentName = (case parent of None \<Rightarrow> [] | Some p \<Rightarrow> name p);
             matchedDoor = find (\<lambda>dn. parentName = dn) doorNames;
             sc1 = (case (matchedDoor, indexOf doorNames parentName, parent) of
                      (Some dn, Some doorIndex, Some parentGroup) \<Rightarrow>
                        if parentName \<notin> foundDoorParents sc then
                          sc\<lparr>doorData := doorData sc @ [Entry (uuid parentGroup) doorIndex parentName],
                             foundDoorParents := insert parentName (foundDoorParents sc)\<rparr>
                        else sc
                    | _ \<Rightarrow> sc);
             matchedDrawer = find (\<lambda>dn. parentName = dn) drawerNames
         in (case (matchedDrawer, indexOf drawerNames parentName, parent) of
               (Some dn, Some drawerIndex, Some parentGroup) \<Rightarrow>
                 if parentName \<notin> foundDrawerParents sc1 then
                   sc1\<lparr>drawerData := drawerData sc1 @ [Entry (uuid parentGroup) drawerIndex parentName],
                       foundDrawerParents := insert parentName (foundDrawerParents sc1)\<rparr>
                 else sc1
             | _ \<Rightarrow> sc1))
      else sc)"

definition discover :: "object3d \<Rightarrow> scan" where
  "discover model =
     fold visit (traverse None model)
       \<lparr>doorData = [], foundDoorParents = {}, drawerData = [], foundDrawerParents = {}\<rparr>"

definition registerDoor :: "entry \<Rightarrow> viewer \<Rightarrow> viewer" where
  "registerDoor d st =
     st\<lparr>doors := doors st @ [e_mesh d],
        doorStates := AList.update (e_mesh d) False (doorStates st),
        doorOriginalX := (doorOriginalX st)(e_mesh d \<mapsto> vx (position st (e_mesh d)))\<rparr>"

definition registerDrawer :: "entry \<Rightarrow> viewer \<Rightarrow> viewer" where
  "registerDrawer d st =
     st\<lparr>drawers := drawers st @ [e_mesh d],
        drawerStates := AList.update (e_mesh d) False (drawerStates st),
        drawerOriginalZ := (drawerOriginalZ st)(e_mesh d \<mapsto> vz (position st (e_mesh d))),
        drawerOriginalX := (drawerOriginalX st)(e_mesh d \<mapsto> vx (position st (e_mesh d)))\<rparr>"

text \<open>
  \<open>createDoorButtons\<close>: one button per registered door and per registered drawer, none of
  them active.
\<close>

definition createDoorButtons :: "viewer \<Rightarrow> viewer" where
  "createDoorButtons st =
     st\<lparr>doorButtons := (\<lambda>i. if i < length (doors st) then Some False else None),
        drawerButtons := (\<lambda>i. if i < length (drawers st) then Some False else None)\<rparr>"

text \<open>
  The success callback of \<open>loader.load\<close>: the scan, the two sorted registrations, the
  model moved so that it stands centred on the floor, and the buttons. (A model without any
  mesh has an empty box and no finite offset; its position is left alone here, and nothing
  is registered from it.)
\<close>

definition onLoad :: "object3d \<Rightarrow> viewer \<Rightarrow> viewer" where
  "onLoad model st =
     (let st0 = st\<lparr>modelRef := Some model\<rparr>;
          sc = discover model;
          st1 = fold registerDoor (sort_key e_index (doorData sc)) st0;
          st2 = fold registerDrawer (sort_key e_index (drawerData sc)) st1;
          st3 = (case setFromObject (Some model) (position st2) (uuid model) of
                   None \<Rightarrow> st2
                 | Some (lo, hi) \<Rightarrow>
                     st2\<lparr>position := (position st2)
                          (uuid model :=
                             Vector3 (- ((vx lo + vx hi) / 2)) (- vy lo) (- ((vz lo + vz hi) / 2)))\<rparr>)
      in createDoorButtons st3)"

text \<open>The module's state before the model has loaded, over a given store of positions.\<close>

definition initial :: "(nat \<Rightarrow> vector3) \<Rightarrow> viewer" where
  "initial pos =
     \<lparr>doors = [], doorStates = [], doorOriginalX = Map.empty,
      drawers = [], drawerStates = [], drawerOriginalZ = Map.empty, drawerOriginalX = Map.empty,
      modelRef = None, position = pos, clock = 0, pending = [],
      doorButtons = Map.empty, drawerButtons = Map.empty,
      pointerClass = False, tooltipText = None, tooltipVisible = False\<rparr>"

subsection \<open>Pointer interaction\<close>

text \<open>
  The ray of the pointer is given by the meshes of the scene it passes through, nearest
  first. \<open>raycaster.intersectObjects(objs, true)\<close> keeps those that are one of \<open>objs\<close> or
  below one.
\<close>

definition chain_of :: "viewer \<Rightarrow> nat \<Rightarrow> nat list" where
  "chain_of st k =
     (case modelRef st of None \<Rightarrow> []
      | Some model \<Rightarrow> (case ancestry model k of None \<Rightarrow> [] | Some c \<Rightarrow> c))"

definition intersectObjects :: "viewer \<Rightarrow> nat list \<Rightarrow> nat list \<Rightarrow> nat list" where
  "intersectObjects st objs ray = filter (\<lambda>h. \<exists>k \<in> set (chain_of st h). k \<in> set objs) ray"

text \<open>
  The walk \<open>while (m && !objs.includes(m)) m = m.parent\<close>: the first registered object on
  the way up, if any.
\<close>

definition walk_up :: "viewer \<Rightarrow> nat list \<Rightarrow> nat \<Rightarrow> nat option" where
  "walk_up st objs k = find (\<lambda>m. m \<in> set objs) (chain_of st k)"

text \<open>
  The tooltip reads \<open>Kapak N\<close> followed by the prompt to close (for an open door) or to
  open; it is kept as the number \<open>N\<close> and whether the prompt is the one to close.
\<close>

definition onMouseMove :: "nat list \<Rightarrow> viewer \<Rightarrow> viewer" where
  "onMouseMove ray st =
     (let intersects = intersectObjects st (doors st) ray in
      case intersects of
        hit # others \<Rightarrow>
          (let st1 = st\<lparr>pointerClass := True\<rparr> in
           case walk_up st (doors st) hit of
             None \<Rightarrow> st1
           | Some doorMesh \<Rightarrow>
               (case indexOf (doors st) doorMesh of
                  None \<Rightarrow> st1
                | Some doorIndex \<Rightarrow>
                    (let isOpen = map_of (doorStates st) doorMesh in
                     st1\<lparr>tooltipText := Some (doorIndex + 1, truthy isOpen),
                         tooltipVisible := True\<rparr>)))
      | [] \<Rightarrow> st\<lparr>pointerClass := False, tooltipVisible := False\<rparr>)"

text \<open>
  A click goes to the door under the pointer; only when the ray meets no door does it go
  to the drawer under the pointer.
\<close>

definition onClick :: "nat list \<Rightarrow> viewer \<Rightarrow> outcome" where
  "onClick ray st =
     (let doorIntersects = intersectObjects st (doors st) ray;
          doorHit = (case doorIntersects of [] \<Rightarrow> None
                     | hit # others \<Rightarrow>
                         (case walk_up st (doors st) hit of None \<Rightarrow> None
                          | Some doorMesh \<Rightarrow> indexOf (doors st) doorMesh))
      in case doorHit of
           Some doorIndex \<Rightarrow> toggleDoor doorIndex st
         | None \<Rightarrow>
             (let drawerIntersects = intersectObjects st (drawers st) ray in
              case drawerIntersects of [] \<Rightarrow> Returned st
              | hit # others \<Rightarrow>
                  (case walk_up st (drawers st) hit of None \<Rightarrow> Returned st
                   | Some drawerMesh \<Rightarrow>
                       (case indexOf (drawers st) drawerMesh of None \<Rightarrow> Returned st
                        | Some drawerIndex \<Rightarrow> toggleDrawer drawerIndex False st))))"

subsection \<open>A cabinet to run the viewer on\<close>

text \<open>
  A small cabinet in the shape the name tables expect: a carcass, the three door groups and
  the six drawer groups, each group holding one mesh. Doors are one unit wide, drawers are
  0.8 wide and 0.5 deep.
\<close>

definition door_leaf :: "box3" where
  "door_leaf = (Vector3 0 0 0, Vector3 1 2 (1 / 20))"

definition drawer_box :: "box3" where
  "drawer_box = (Vector3 0 0 0, Vector3 (4 / 5) (1 / 5) (1 / 2))"

definition cabinet :: object3d where
  "cabinet =
     Object3D 0 ''Dolap'' None
       [Object3D 10 ''Govde'' (Some (Vector3 0 0 0, Vector3 3 2 1)) [],
        Object3D 1 ''Box2449'' None [Object3D 11 ''Box2449_1'' (Some door_leaf) []],
        Object3D 2 ''Box2448'' None [Object3D 12 ''Box2448_1'' (Some door_leaf) []],
        Object3D 3 ''Box2442'' None [Object3D 13 ''Box2442_1'' (Some door_leaf) []],
        Object3D 20 ''Plane093'' None [Object3D 30 ''Plane093_1'' (Some drawer_box) []],
        Object3D 21 ''Box66787356'' None [Object3D 31 ''Box66787356_1'' (Some drawer_box) []],
        Object3D 22 ''Box66787348'' None [Object3D 32 ''Box66787348_1'' (Some drawer_box) []],
        Object3D 23 ''Rectangle010'' None [Object3D 33 ''Rectangle010_1'' (Some drawer_box) []],
        Object3D 24 ''Box66787350'' None [Object3D 34 ''Box66787350_1'' (Some drawer_box) []],
        Object3D 25 ''Rectangle012'' None [Object3D 35 ''Rectangle012_1'' (Some drawer_box) []]]"

definition layout :: "nat \<Rightarrow> vector3" where
  "layout =
     (\<lambda>k. Vector3 0 0 0)
       (1 := Vector3 0 0 1, 2 := Vector3 1 0 1, 3 := Vector3 2 0 1,
        20 := Vector3 0 (3 / 2) (1 / 4), 21 := Vector3 1 (3 / 2) (1 / 4),
        22 := Vector3 1 1 (1 / 4), 23 := Vector3 1 (3 / 4) (1 / 4),
        24 := Vector3 1 (1 / 2) (1 / 4), 25 := Vector3 1 (1 / 4) (1 / 4))"

text \<open>The viewer right after loading: every panel registered and closed.\<close>

definition showroom :: viewer where
  "showroom = onLoad cabinet (initial layout)"

text \<open>
  The viewer after the third and fourth drawer buttons were pressed, one after the other,
  each time waiting for the animations to end: the middle door and those two drawers are
  open.
\<close>

definition in_use :: viewer where
  "in_use =
     settle (state_of (toggleDrawer 3 False (settle (state_of (toggleDrawer 2 False showroom)))))"

text \<open>
  A variant of the cabinet in which the group of the first drawer hangs below the group of
  the middle door, and the viewer on it after the first drawer button was pressed and the
  animations have ended.
\<close>

definition nested :: object3d where
  "nested =
     Object3D 0 ''Dolap'' None
       [Object3D 10 ''Govde'' (Some (Vector3 0 0 0, Vector3 3 2 1)) [],
        Object3D 1 ''Box2449'' None [Object3D 11 ''Box2449_1'' (Some door_leaf) []],
        Object3D 2 ''Box2448'' None
          [Object3D 12 ''Box2448_1'' (Some door_leaf) [],
           Object3D 20 ''Plane093'' None [Object3D 30 ''Plane093_1'' (Some drawer_box) []]],
        Object3D 3 ''Box2442'' None [Object3D 13 ''Box2442_1'' (Some door_leaf) []]]"

definition nested_layout :: "nat \<Rightarrow> vector3" where
  "nested_layout = layout (20 := Vector3 0 (3 / 2) (- (3 / 4)))"

definition nested_loaded :: viewer where
  "nested_loaded = onLoad nested (initial nested_layout)"

definition nested_used :: viewer where
  "nested_used = settle (state_of (toggleDrawer 0 False nested_loaded))"

text \<open>
  A scene in which two different groups bear the name of the first door, each with a mesh
  of its own.
\<close>

definition twins :: object3d where
  "twins =
     Object3D 0 ''Dolap'' None
       [Object3D 1 ''Box2449'' None [Object3D 11 ''Leaf_a'' (Some door_leaf) []],
        Object3D 4 ''Box2449'' None [Object3D 14 ''Leaf_b'' (Some door_leaf) []]]"

text \<open>A scene with the first drawer but without any door.\<close>

definition doorless :: object3d where
  "doorless =
     Object3D 0 ''Dolap'' None
       [Object3D 20 ''Plane093'' None [Object3D 30 ''Plane093_1'' (Some drawer_box) []]]"

subsection \<open>Notions for the statements\<close>

text \<open>
  What a pending event will do, read off the event alone. Every event ends in one write
  to a state map (\<open>writes\<close>: which map, which key, which value) and moves one object
  (\<open>mover\<close>); a tween does so when it is due, a timeout one tween's duration after it is
  due (\<open>finish\<close>: 1200 ms for a door, 800 ms for a drawer).
\<close>

datatype kind = Door | Drawer

fun writes :: "event \<Rightarrow> (kind \<times> nat) \<times> bool" where
  "writes (Timeout (ProceedToggleDoor index door isOpen)) = ((Door, door), \<not> truthy isOpen)"
| "writes (Timeout (ProceedToggleDrawer index drawer isOpen)) = ((Drawer, drawer), \<not> truthy isOpen)"
| "writes (Tween obj ax target (DoorComplete door index newState)) = ((Door, door), newState)"
| "writes (Tween obj ax target (DrawerComplete drawer index newState)) = ((Drawer, drawer), newState)"

fun mover :: "event \<Rightarrow> nat" where
  "mover (Timeout (ProceedToggleDoor index door isOpen)) = door"
| "mover (Timeout (ProceedToggleDrawer index drawer isOpen)) = drawer"
| "mover (Tween obj ax target fin) = obj"

fun finish :: "nat \<times> event \<Rightarrow> nat" where
  "finish (d, Timeout (ProceedToggleDoor index door isOpen)) = d + 1200"
| "finish (d, Timeout (ProceedToggleDrawer index drawer isOpen)) = d + 800"
| "finish (d, Tween obj ax target fin) = d"

text \<open>The state of a panel, by kind and \<open>uuid\<close>.\<close>

fun panel_state :: "viewer \<Rightarrow> kind \<times> nat \<Rightarrow> bool option" where
  "panel_state st (Door, k) = map_of (doorStates st) k"
| "panel_state st (Drawer, k) = map_of (drawerStates st) k"

text \<open>
  \<open>lands st k ax v e\<close>: the event \<open>e\<close> leaves the coordinate \<open>ax\<close> of the object it moves at
  \<open>v\<close>. This is known beforehand for a tween, and for a timeout that closes a panel (its
  target is the original offset in the registry of \<open>st\<close>).
\<close>

fun lands :: "viewer \<Rightarrow> nat \<Rightarrow> axis \<Rightarrow> real \<Rightarrow> event \<Rightarrow> bool" where
  "lands st k ax v (Timeout (ProceedToggleDoor index door isOpen)) =
     (truthy isOpen \<and> ax = AxisX \<and> doorOriginalX st door = Some v)"
| "lands st k ax v (Timeout (ProceedToggleDrawer index drawer isOpen)) =
     (truthy isOpen \<and>
      (if index = 0 \<or> index = 1 then ax = AxisX \<and> drawerOriginalX st drawer = Some v
       else ax = AxisZ \<and> drawerOriginalZ st drawer = Some v))"
| "lands st k ax v (Tween obj ax' target fin) = (ax' = ax \<and> target = Some v)"

text \<open>Two states with the same registries and the same scene.\<close>

definition static :: "viewer \<Rightarrow> viewer \<Rightarrow> bool" where
  "static s st \<longleftrightarrow> doors s = doors st \<and> drawers s = drawers st \<and>
     doorOriginalX s = doorOriginalX st \<and> drawerOriginalZ s = drawerOriginalZ st \<and>
     drawerOriginalX s = drawerOriginalX st \<and> modelRef s = modelRef st"

text \<open>
  The event that \<open>proceedToggleDoor\<close> schedules in a state, the one that
  \<open>proceedToggleDrawer\<close> schedules, the list \<open>dependentDrawers\<close> that \<open>toggleDoor\<close> builds, and
  all the events that one call of \<open>toggleDoor\<close> or of \<open>toggleDrawer\<close> schedules.
\<close>

definition door_tween :: "viewer \<Rightarrow> nat \<Rightarrow> nat \<Rightarrow> bool option \<Rightarrow> nat \<times> event" where
  "door_tween st index door isOpen =
     (clock st + 1200,
      Tween door AxisX
        (if truthy isOpen then doorOriginalX st door
         else map_option
                (\<lambda>ox. ox + getSlidingAmount st door index
                             * (if index = 0 then - 1 else if index = 1 then - 1 else 1))
                (doorOriginalX st door))
        (DoorComplete door index (\<not> truthy isOpen)))"

definition drawer_tween :: "viewer \<Rightarrow> nat \<Rightarrow> nat \<Rightarrow> bool option \<Rightarrow> nat \<times> event" where
  "drawer_tween st index drawer isOpen =
     (clock st + 800,
      if index = 0 \<or> index = 1 then
        Tween drawer AxisX
          (Some ((case drawerOriginalX st drawer of Some ox \<Rightarrow> ox
                  | None \<Rightarrow> vx (position st drawer))
                 - (if truthy isOpen then 0 else getDrawerPullAmount st drawer index)))
          (DrawerComplete drawer index (\<not> truthy isOpen))
      else
        Tween drawer AxisZ
          (if truthy isOpen then drawerOriginalZ st drawer
           else map_option (\<lambda>oz. oz + getDrawerPullAmount st drawer index)
                  (drawerOriginalZ st drawer))
          (DrawerComplete drawer index (\<not> truthy isOpen)))"

definition dependents :: "viewer \<Rightarrow> nat \<Rightarrow> nat list" where
  "dependents st index =
     filter (\<lambda>dIndex. drawerToDoorMap dIndex = Some index \<and>
               (case item (drawers st) dIndex of None \<Rightarrow> False
                | Some drawer \<Rightarrow> truthy (map_of (drawerStates st) drawer)))
       drawerToDoorKeys"

definition door_events :: "viewer \<Rightarrow> nat \<Rightarrow> (nat \<times> event) list" where
  "door_events st index =
     (case item (doors st) index of None \<Rightarrow> []
      | Some door \<Rightarrow>
          (let isOpen = map_of (doorStates st) door in
           if truthy isOpen \<and> dependents st index \<noteq> [] then
             map (\<lambda>j. drawer_tween st j (drawers st ! j) (map_of (drawerStates st) (drawers st ! j)))
               (dependents st index)
             @ [(clock st + 800, Timeout (ProceedToggleDoor index door isOpen))]
           else [door_tween st index door isOpen]))"

definition drawer_events :: "viewer \<Rightarrow> nat \<Rightarrow> bool \<Rightarrow> (nat \<times> event) list" where
  "drawer_events st index forceClose =
     (case item (drawers st) index of None \<Rightarrow> []
      | Some drawer \<Rightarrow>
          (let isOpen = map_of (drawerStates st) drawer in
           case (if \<not> truthy isOpen \<and> \<not> forceClose then drawerToDoorMap index else None) of
             None \<Rightarrow> [drawer_tween st index drawer isOpen]
           | Some c \<Rightarrow>
               (case item (doors st) c of None \<Rightarrow> []
                | Some door \<Rightarrow>
                    if \<not> truthy (map_of (doorStates st) door) then
                      [door_tween st c door (map_of (doorStates st) door),
                       (clock st + 900, Timeout (ProceedToggleDrawer index drawer isOpen))]
                    else [drawer_tween st index drawer isOpen])))"

text \<open>A drawer toggle throws exactly when it has to look at a door that is not there.\<close>

definition door_missing :: "viewer \<Rightarrow> nat \<Rightarrow> bool \<Rightarrow> bool" where
  "door_missing st index forceClose =
     (case item (drawers st) index of None \<Rightarrow> False
      | Some drawer \<Rightarrow>
          \<not> truthy (map_of (drawerStates st) drawer) \<and> \<not> forceClose \<and>
          (case drawerToDoorMap index of None \<Rightarrow> False
           | Some c \<Rightarrow> item (doors st) c = None))"

text \<open>
  A viewer at rest has nothing pending. In a registered viewer no object is listed twice,
  the state maps list exactly the registered panels, and every panel has its original
  offsets on record: the state the success callback of the loader leaves behind.
\<close>

definition quiet :: "viewer \<Rightarrow> bool" where
  "quiet st \<longleftrightarrow> pending st = []"

definition registered :: "viewer \<Rightarrow> bool" where
  "registered st \<longleftrightarrow>
     distinct (doors st @ drawers st) \<and>
     map fst (doorStates st) = doors st \<and>
     map fst (drawerStates st) = drawers st \<and>
     (\<forall>d \<in> set (doors st). doorOriginalX st d \<noteq> None) \<and>
     (\<forall>d \<in> set (drawers st). drawerOriginalZ st d \<noteq> None \<and> drawerOriginalX st d \<noteq> None)"





text \<open>
  A panel is being animated when a pending tween moves it. Seen from a state, a pending
  tween has begun already, and a pending timeout begins its tween when it fires.
\<close>

definition in_flight :: "viewer \<Rightarrow> nat \<Rightarrow> bool" where
  "in_flight st k =
     list_ex (\<lambda>p. case snd p of Tween obj ax target fin \<Rightarrow> obj = k | Timeout cb \<Rightarrow> False)
       (pending st)"

fun begins :: "nat \<times> event \<Rightarrow> nat" where
  "begins (d, Timeout cb) = d"
| "begins (d, Tween obj ax target fin) = 0"

text \<open>
  Discovery, said in words: the candidates are the parents of the meshes, in traversal
  order, whose name is in the table, each with the index of that name; of the candidates,
  the first one of every name is kept.
\<close>

definition candidate :: "string list \<Rightarrow> object3d \<times> object3d option \<Rightarrow> entry option" where
  "candidate names cp =
     (if isMesh (fst cp) then
        (case snd cp of None \<Rightarrow> None
         | Some q \<Rightarrow> map_option (\<lambda>i. Entry (uuid q) i (name q)) (indexOf names (name q)))
      else None)"

definition candidates :: "string list \<Rightarrow> object3d \<Rightarrow> entry list" where
  "candidates names model = List.map_filter (candidate names) (traverse None model)"

fun first_by_name :: "string set \<Rightarrow> entry list \<Rightarrow> entry list" where
  "first_by_name seen [] = []"
| "first_by_name seen (e # es) =
     (if e_name e \<in> seen then first_by_name seen es
      else e # first_by_name (insert (e_name e) seen) es)"

section \<open>Properties of the scheduler and of the toggles\<close>

declare toggleDoor.simps [simp del] toggleDrawer.simps [simp del] run_until.simps [simp del]

lemma min_due_None [simp]: "min_due ps = None \<longleftrightarrow> ps = []"
  by (induction ps) (auto split: option.splits)

lemma min_due_le: "min_due ps = Some d \<Longrightarrow> p \<in> set ps \<Longrightarrow> d \<le> fst p"
  by (induction ps arbitrary: d) (auto split: option.splits)

lemma min_due_mem: "min_due ps = Some d \<Longrightarrow> d \<in> fst ` set ps"
proof (induction ps arbitrary: d)
  case Nil
  then show ?case by simp
next
  case (Cons p ps)
  obtain d0 e0 where p: "p = (d0, e0)" by (cases p)
  show ?case
  proof (cases "min_due ps")
    case None
    then show ?thesis using Cons.prems p by simp
  next
    case (Some d')
    then have "d' \<in> fst ` set ps" using Cons.IH by blast
    moreover have "d = min d0 d'" using Cons.prems p Some by simp
    ultimately show ?thesis using p by (cases "d0 \<le> d'") (auto simp: min_def)
  qed
qed

lemma take_due_set: "take_due d ps = Some (e, ps') \<Longrightarrow> set ps = insert (d, e) (set ps')"
  by (induction ps arbitrary: ps') (auto split: if_splits option.splits)

lemma take_due_Some: "d \<in> fst ` set ps \<Longrightarrow> \<exists>e ps'. take_due d ps = Some (e, ps')"
proof (induction ps)
  case Nil
  then show ?case by simp
next
  case (Cons p ps)
  obtain d0 e0 where p: "p = (d0, e0)" by (cases p)
  show ?case
  proof (cases "d0 = d")
    case True
    then show ?thesis using p by simp
  next
    case False
    then have "d \<in> fst ` set ps" using Cons.prems p by auto
    then obtain e ps' where "take_due d ps = Some (e, ps')" using Cons.IH by blast
    then show ?thesis using p False by simp
  qed
qed

lemma next_event_Nil [simp]: "next_event [] = None"
  by (simp add: next_event_def)

lemma next_event_None [simp]: "next_event ps = None \<longleftrightarrow> ps = []"
proof
  assume "next_event ps = None"
  show "ps = []"
  proof (rule ccontr)
    assume "ps \<noteq> []"
    then obtain d where d: "min_due ps = Some d" by (cases "min_due ps") auto
    from take_due_Some [OF min_due_mem [OF d]] obtain e ps' where "take_due d ps = Some (e, ps')" by blast
    with d \<open>next_event ps = None\<close> show False by (simp add: next_event_def)
  qed
qed (simp add: next_event_def)

lemma next_event_set: "next_event ps = Some (d, e, ps') \<Longrightarrow> set ps = insert (d, e) (set ps')"
  by (auto simp: next_event_def split: option.splits dest: take_due_set)

lemma next_event_least: "next_event ps = Some (d, e, ps') \<Longrightarrow> p \<in> set ps \<Longrightarrow> d \<le> fst p"
  by (auto simp: next_event_def split: option.splits dest: min_due_le)

lemma run_until_invariant [consumes 1, case_names step tick]:
  assumes "I st"
    and step: "\<And>st d e ps. I st \<Longrightarrow> next_event (pending st) = Some (d, e, ps) \<Longrightarrow> due_by h d
                 \<Longrightarrow> I (fire e (st\<lparr>pending := ps, clock := d\<rparr>))"
    and tick: "\<And>st t. I st \<Longrightarrow> I (st\<lparr>clock := t\<rparr>)"
  shows "I (run_until h st)"
proof -
  have "horizon = h \<Longrightarrow> I st \<Longrightarrow> I (run_until horizon st)" for horizon
proof (induction horizon st rule: run_until.induct)
  case (1 horizon st)
  note step = step [folded \<open>horizon = h\<close>]
  show ?case
  proof (cases "next_event (pending st)")
    case None
    then show ?thesis using 1 tick by (subst run_until.simps) (auto split: option.splits)
  next
    case (Some a)
    then obtain d e ps where a: "a = (d, e, ps)" by (cases a) auto
    show ?thesis
    proof (cases "due_by horizon d")
      case True
      have "I (fire e (st\<lparr>pending := ps, clock := d\<rparr>))" using step 1(3) Some a True by blast
      then have "I (run_until horizon (fire e (st\<lparr>pending := ps, clock := d\<rparr>)))"
        using 1(1,2) Some a True by simp
      then show ?thesis using Some a True by (subst run_until.simps) simp
    next
      case False
      then show ?thesis using Some a 1 tick by (subst run_until.simps) (auto split: option.splits)
    qed
  qed
qed
  then show ?thesis using assms(1) by simp
qed

lemma run_until_rest: "p \<in> set (pending (run_until h st)) \<Longrightarrow> \<not> due_by h (fst p)"
proof (induction h st rule: run_until.induct)
  case (1 horizon st)
  show ?case
  proof (cases "next_event (pending st)")
    case None
    then show ?thesis using 1(2) by (subst (asm) run_until.simps) (auto split: option.splits)
  next
    case (Some a)
    then obtain d e ps where a: "a = (d, e, ps)" by (cases a) auto
    show ?thesis
    proof (cases "due_by horizon d")
      case True
      then show ?thesis using 1 Some a by (subst (asm) (2) run_until.simps) simp
    next
      case False
      have "p \<in> set (pending st)" using 1(2) Some a False
        by (subst (asm) run_until.simps) (auto split: option.splits)
      then have "d \<le> fst p" using next_event_least Some a by blast
      then show ?thesis using False by (auto simp: due_by_def split: option.splits)
    qed
  qed
qed

lemma finish_ge: "fst p \<le> finish p"
  by (cases p rule: finish.cases) auto

lemma due_by_mono: "due_by h d' \<Longrightarrow> d \<le> d' \<Longrightarrow> due_by h d"
  by (auto simp: due_by_def split: option.splits)

lemma fire_Timeout:
  "\<exists>tw. fire (Timeout cb) st = st\<lparr>pending := pending st @ [(finish (clock st, Timeout cb), tw)]\<rparr>
        \<and> writes tw = writes (Timeout cb) \<and> mover tw = mover (Timeout cb)
        \<and> finish (finish (clock st, Timeout cb), tw) = finish (clock st, Timeout cb)
        \<and> (\<forall>k ax v. lands st k ax v (Timeout cb) \<longrightarrow> lands st k ax v tw)"
  by (cases cb)
     (auto simp: proceedToggleDoor_def proceedToggleDrawer_def gsap_to_def Let_def)

lemma updateButtonState_fields [simp]:
  "doors (updateButtonState i b st) = doors st"
  "doorStates (updateButtonState i b st) = doorStates st"
  "doorOriginalX (updateButtonState i b st) = doorOriginalX st"
  "drawers (updateButtonState i b st) = drawers st"
  "drawerStates (updateButtonState i b st) = drawerStates st"
  "drawerOriginalZ (updateButtonState i b st) = drawerOriginalZ st"
  "drawerOriginalX (updateButtonState i b st) = drawerOriginalX st"
  "modelRef (updateButtonState i b st) = modelRef st"
  "position (updateButtonState i b st) = position st"
  "clock (updateButtonState i b st) = clock st"
  "pending (updateButtonState i b st) = pending st"
  by (simp_all add: updateButtonState_def split: option.splits)

lemma updateDrawerButtonState_fields [simp]:
  "doors (updateDrawerButtonState i b st) = doors st"
  "doorStates (updateDrawerButtonState i b st) = doorStates st"
  "doorOriginalX (updateDrawerButtonState i b st) = doorOriginalX st"
  "drawers (updateDrawerButtonState i b st) = drawers st"
  "drawerStates (updateDrawerButtonState i b st) = drawerStates st"
  "drawerOriginalZ (updateDrawerButtonState i b st) = drawerOriginalZ st"
  "drawerOriginalX (updateDrawerButtonState i b st) = drawerOriginalX st"
  "modelRef (updateDrawerButtonState i b st) = modelRef st"
  "position (updateDrawerButtonState i b st) = position st"
  "clock (updateDrawerButtonState i b st) = clock st"
  "pending (updateDrawerButtonState i b st) = pending st"
  by (simp_all add: updateDrawerButtonState_def split: option.splits)

lemma panel_state_upd [simp]:
  "panel_state (st\<lparr>clock := t\<rparr>) K = panel_state st K"
  "panel_state (st\<lparr>pending := ps\<rparr>) K = panel_state st K"
  "panel_state (st\<lparr>position := q\<rparr>) K = panel_state st K"
  by (cases K; cases "fst K"; simp)+

lemma panel_state_buttons [simp]:
  "panel_state (updateButtonState i b st) K = panel_state st K"
  "panel_state (updateDrawerButtonState i b st) K = panel_state st K"
  by (cases K; cases "fst K"; simp)+

lemma fire_Tween_state:
  "panel_state (fire (Tween obj ax target fin) st) K =
     (if fst (writes (Tween obj ax target fin)) = K
      then Some (snd (writes (Tween obj ax target fin))) else panel_state st K)"
  by (cases fin; cases K; cases "fst K"; cases target)
     (auto simp: update_conv')

lemma fire_Tween_pending [simp]: "pending (fire (Tween obj ax target fin) st) = pending st"
  by (cases target) auto

declare fire.simps [simp del]

lemma state_not_before:
  assumes "\<forall>p \<in> set (pending st). fst (writes (snd p)) = K \<longrightarrow> \<not> due_by h (finish p)"
  shows "panel_state (run_until h st) K = panel_state st K"
proof -
  define I where "I s \<longleftrightarrow> panel_state s K = panel_state st K \<and>
     (\<forall>p \<in> set (pending s). fst (writes (snd p)) = K \<longrightarrow> \<not> due_by h (finish p))" for s :: viewer
  have "I st" using assms by (simp add: I_def)
  then have "I (run_until h st)"
  proof (induction rule: run_until_invariant)
    case (step s d e ps)
    have mem: "set (pending s) = insert (d, e) (set ps)" using step(2) by (rule next_event_set)
    show ?case
    proof (cases e)
      case (Timeout cb)
      obtain tw where tw: "fire (Timeout cb) (s\<lparr>pending := ps, clock := d\<rparr>)
          = s\<lparr>pending := ps, clock := d\<rparr>\<lparr>pending := ps @ [(finish (d, Timeout cb), tw)]\<rparr>"
        "writes tw = writes (Timeout cb)"
        "finish (finish (d, Timeout cb), tw) = finish (d, Timeout cb)"
        using fire_Timeout [of cb "s\<lparr>pending := ps, clock := d\<rparr>"] by auto
      show ?thesis using step(1) mem tw Timeout by (auto simp: I_def)
    next
      case (Tween obj ax target fin)
      have "fst (writes e) \<noteq> K" using step(1,3) mem by (auto simp: I_def Tween)
      then show ?thesis using step(1) mem Tween by (auto simp: I_def fire_Tween_state)
    qed
  next
    case (tick s t)
    then show ?case by (simp add: I_def)
  qed
  then show ?thesis by (simp add: I_def)
qed

lemma state_deadline:
  assumes all: "\<forall>p \<in> set (pending st). fst (writes (snd p)) = K \<longrightarrow> snd (writes (snd p)) = v"
    and ex: "\<exists>p \<in> set (pending st). fst (writes (snd p)) = K \<and> due_by h (finish p)"
  shows "panel_state (run_until h st) K = Some v"
proof -
  define I where "I s \<longleftrightarrow>
     (\<forall>p \<in> set (pending s). fst (writes (snd p)) = K \<longrightarrow> snd (writes (snd p)) = v) \<and>
     (panel_state s K = Some v \<or>
      (\<exists>p \<in> set (pending s). fst (writes (snd p)) = K \<and> due_by h (finish p)))" for s :: viewer
  have "I st" using assms by (simp add: I_def)
  then have "I (run_until h st)"
  proof (induction rule: run_until_invariant)
    case (step s d e ps)
    have mem: "set (pending s) = insert (d, e) (set ps)" using step(2) by (rule next_event_set)
    show ?case
    proof (cases e)
      case (Timeout cb)
      obtain tw where tw: "fire (Timeout cb) (s\<lparr>pending := ps, clock := d\<rparr>)
          = s\<lparr>pending := ps, clock := d\<rparr>\<lparr>pending := ps @ [(finish (d, Timeout cb), tw)]\<rparr>"
        "writes tw = writes (Timeout cb)"
        "finish (finish (d, Timeout cb), tw) = finish (d, Timeout cb)"
        using fire_Timeout [of cb "s\<lparr>pending := ps, clock := d\<rparr>"] by auto
      show ?thesis using step(1) mem tw Timeout by (auto simp: I_def)
    next
      case (Tween obj ax target fin)
      show ?thesis
      proof (cases "fst (writes e) = K")
        case True
        then have "snd (writes e) = v" using step(1) mem by (auto simp: I_def)
        then show ?thesis using step(1) mem Tween True by (auto simp: I_def fire_Tween_state)
      next
        case False
        then show ?thesis using step(1) mem Tween by (auto simp: I_def fire_Tween_state)
      qed
    qed
  next
    case (tick s t)
    then show ?case by (simp add: I_def)
  qed
  moreover have "\<not> (\<exists>p \<in> set (pending (run_until h st)). due_by h (finish p))"
    using run_until_rest due_by_mono finish_ge by blast
  ultimately show ?thesis by (auto simp: I_def)
qed

lemma fire_static: "static (fire e st) st"
proof (cases e)
  case (Timeout cb)
  then show ?thesis
    by (cases cb)
       (simp_all add: fire.simps static_def proceedToggleDoor_def proceedToggleDrawer_def
          gsap_to_def Let_def)
next
  case (Tween obj ax target fin)
  then show ?thesis by (cases fin; cases target) (simp_all add: fire.simps static_def)
qed


lemma fire_Tween_position:
  "position (fire (Tween obj ax target fin) st) =
     (case target of None \<Rightarrow> position st
      | Some v \<Rightarrow> (position st)(obj := set_coord ax v (position st obj)))"
  by (cases fin; cases target) (simp_all add: fire.simps)

lemma lands_static: "static s st \<Longrightarrow> lands s k ax v e = lands st k ax v e"
  by (cases "(st, k, ax, v, e)" rule: lands.cases) (auto simp: static_def)

lemma coord_set_coord [simp]:
  "coord ax (set_coord ax v p) = v"
  "ax' \<noteq> ax \<Longrightarrow> coord ax' (set_coord ax v p) = coord ax' p"
  "vy (set_coord ax v p) = vy p"
  by (cases ax; cases ax'; simp add: coord_def set_coord_def)+

lemma pos_not_before:
  assumes "\<forall>p \<in> set (pending st). mover (snd p) = k \<longrightarrow> \<not> due_by h (finish p)"
  shows "position (run_until h st) k = position st k"
proof -
  define I where "I s \<longleftrightarrow> position s k = position st k \<and>
     (\<forall>p \<in> set (pending s). mover (snd p) = k \<longrightarrow> \<not> due_by h (finish p))" for s :: viewer
  have "I st" using assms by (simp add: I_def)
  then have "I (run_until h st)"
  proof (induction rule: run_until_invariant)
    case (step s d e ps)
    have mem: "set (pending s) = insert (d, e) (set ps)" using step(2) by (rule next_event_set)
    show ?case
    proof (cases e)
      case (Timeout cb)
      obtain tw where tw: "fire (Timeout cb) (s\<lparr>pending := ps, clock := d\<rparr>)
          = s\<lparr>pending := ps, clock := d\<rparr>\<lparr>pending := ps @ [(finish (d, Timeout cb), tw)]\<rparr>"
        "mover tw = mover (Timeout cb)"
        "finish (finish (d, Timeout cb), tw) = finish (d, Timeout cb)"
        using fire_Timeout [of cb "s\<lparr>pending := ps, clock := d\<rparr>"] by auto
      show ?thesis using step(1) mem tw Timeout by (auto simp: I_def)
    next
      case (Tween obj ax target fin)
      have "obj \<noteq> k" using step(1,3) mem by (auto simp: I_def Tween)
      then show ?thesis using step(1) mem Tween
        by (auto simp: I_def fire_Tween_position split: option.splits)
    qed
  next
    case (tick s t)
    then show ?case by (simp add: I_def)
  qed
  then show ?thesis by (simp add: I_def)
qed

lemma pos_deadline:
  assumes all: "\<forall>p \<in> set (pending st). mover (snd p) = k \<longrightarrow> lands st k ax v (snd p)"
    and ex: "\<exists>p \<in> set (pending st). mover (snd p) = k \<and> due_by h (finish p)"
  shows "coord ax (position (run_until h st) k) = v"
    and "ax' \<noteq> ax \<Longrightarrow> coord ax' (position (run_until h st) k) = coord ax' (position st k)"
    and "vy (position (run_until h st) k) = vy (position st k)"
proof -
  define I where "I s \<longleftrightarrow> static s st \<and>
     (\<forall>p \<in> set (pending s). mover (snd p) = k \<longrightarrow> lands st k ax v (snd p)) \<and>
     (\<forall>ax'. ax' \<noteq> ax \<longrightarrow> coord ax' (position s k) = coord ax' (position st k)) \<and>
     vy (position s k) = vy (position st k) \<and>
     (coord ax (position s k) = v \<or>
      (\<exists>p \<in> set (pending s). mover (snd p) = k \<and> due_by h (finish p)))" for s :: viewer
  have "I st" using assms by (simp add: I_def static_def)
  then have "I (run_until h st)"
  proof (induction rule: run_until_invariant)
    case (step s d e ps)
    have mem: "set (pending s) = insert (d, e) (set ps)" using step(2) by (rule next_event_set)
    have st: "static (fire e (s\<lparr>pending := ps, clock := d\<rparr>)) st"
      using fire_static [of e "s\<lparr>pending := ps, clock := d\<rparr>"] step(1)
      by (simp add: I_def static_def)
    show ?case
    proof (cases e)
      case (Timeout cb)
      let ?s = "s\<lparr>pending := ps, clock := d\<rparr>"
      obtain tw where tw: "fire (Timeout cb) ?s
          = ?s\<lparr>pending := ps @ [(finish (d, Timeout cb), tw)]\<rparr>"
        "mover tw = mover (Timeout cb)"
        "finish (finish (d, Timeout cb), tw) = finish (d, Timeout cb)"
        "\<forall>k ax v. lands ?s k ax v (Timeout cb) \<longrightarrow> lands ?s k ax v tw"
        using fire_Timeout [of cb ?s] by auto
      have "static ?s st" using step(1) by (simp add: I_def static_def)
      then have l: "lands st k ax v (Timeout cb) \<Longrightarrow> lands st k ax v tw"
        using tw(4) lands_static by blast
      show ?thesis using step(1) mem tw(1,2,3) l Timeout st
        by (auto simp: I_def)
    next
      case (Tween obj ax0 target fin)
      show ?thesis
      proof (cases "obj = k")
        case True
        then have "lands st k ax v e" using step(1) mem Tween by (auto simp: I_def)
        then have "ax0 = ax" "target = Some v" using Tween by auto
        then show ?thesis using step(1) mem Tween True st
          by (auto simp: I_def fire_Tween_position)
      next
        case False
        then show ?thesis using step(1) mem Tween st
          by (auto simp: I_def fire_Tween_position split: option.splits)
      qed
    qed
  next
    case (tick s t)
    then show ?case by (simp add: I_def static_def)
  qed
  moreover have "\<not> (\<exists>p \<in> set (pending (run_until h st)). due_by h (finish p))"
    using run_until_rest due_by_mono finish_ge by blast
  ultimately have I: "coord ax (position (run_until h st) k) = v"
    "\<forall>ax'. ax' \<noteq> ax \<longrightarrow> coord ax' (position (run_until h st) k) = coord ax' (position st k)"
    "vy (position (run_until h st) k) = vy (position st k)"
    by (auto simp: I_def)
  show "coord ax (position (run_until h st) k) = v" by (rule I(1))
  show "ax' \<noteq> ax \<Longrightarrow> coord ax' (position (run_until h st) k) = coord ax' (position st k)"
    using I(2) by blast
  show "vy (position (run_until h st) k) = vy (position st k)" by (rule I(3))
qed

lemma amounts_pending [simp]:
  "getSlidingAmount (st\<lparr>pending := ps\<rparr>) = getSlidingAmount st"
  "getDrawerPullAmount (st\<lparr>pending := ps\<rparr>) = getDrawerPullAmount st"
  by (simp_all add: getSlidingAmount_def getDrawerPullAmount_def fun_eq_iff)

lemma tween_pending [simp]:
  "door_tween (st\<lparr>pending := ps\<rparr>) = door_tween st"
  "drawer_tween (st\<lparr>pending := ps\<rparr>) = drawer_tween st"
  by (simp_all add: door_tween_def drawer_tween_def fun_eq_iff split: option.splits)

lemma dependents_pending [simp]: "dependents (st\<lparr>pending := ps\<rparr>) = dependents st"
  by (simp add: dependents_def fun_eq_iff split: option.splits cong: filter_cong)

lemma toggleDoor_unfold:
  "toggleDoor index st =
     (case item (doors st) index of
        None \<Rightarrow> Returned st
      | Some door \<Rightarrow>
          if truthy (map_of (doorStates st) door) \<and> dependents st index \<noteq> [] then
            (case forEach (\<lambda>dIdx. toggleDrawer dIdx True) (dependents st index) st of
               Threw e st' \<Rightarrow> Threw e st'
             | Returned st' \<Rightarrow>
                 Returned (setTimeout (ProceedToggleDoor index door (map_of (doorStates st) door))
                             800 st'))
          else Returned (proceedToggleDoor index door (map_of (doorStates st) door) st))"
  by (subst toggleDoor.simps) (simp add: dependents_def Let_def split: option.splits)

lemma proceedToggleDoor_event:
  "proceedToggleDoor index door isOpen st
     = st\<lparr>pending := pending st @ [door_tween st index door isOpen]\<rparr>"
  by (simp add: proceedToggleDoor_def door_tween_def gsap_to_def Let_def)

lemma proceedToggleDrawer_event:
  "proceedToggleDrawer index drawer isOpen st
     = st\<lparr>pending := pending st @ [drawer_tween st index drawer isOpen]\<rparr>"
  by (simp add: proceedToggleDrawer_def drawer_tween_def gsap_to_def Let_def)

lemma forEach_events:
  assumes "\<And>a ps. a \<in> set xs \<Longrightarrow> f a (st\<lparr>pending := ps\<rparr>) = Returned (st\<lparr>pending := ps @ evs a\<rparr>)"
  shows "forEach f xs (st\<lparr>pending := ps\<rparr>) = Returned (st\<lparr>pending := ps @ concat (map evs xs)\<rparr>)"
  using assms
proof (induction xs arbitrary: ps)
  case Nil
  then show ?case by simp
next
  case (Cons a xs)
  have "f a (st\<lparr>pending := ps\<rparr>) = Returned (st\<lparr>pending := ps @ evs a\<rparr>)"
    using Cons.prems by simp
  moreover have "forEach f xs (st\<lparr>pending := ps @ evs a\<rparr>)
      = Returned (st\<lparr>pending := (ps @ evs a) @ concat (map evs xs)\<rparr>)"
    using Cons.IH Cons.prems by simp
  ultimately show ?case by simp
qed

lemma toggleDrawer_forced:
  assumes "item (drawers st) j = Some drawer"
  shows "toggleDrawer j True (st\<lparr>pending := ps\<rparr>)
     = Returned (st\<lparr>pending := ps @ [drawer_tween st j drawer (map_of (drawerStates st) drawer)]\<rparr>)"
  using assms by (simp add: toggleDrawer.simps proceedToggleDrawer_event)

lemma dependents_item:
  "j \<in> set (dependents st index) \<Longrightarrow> item (drawers st) j = Some (drawers st ! j)"
  by (auto simp: dependents_def item_def split: option.splits if_splits)

lemma toggleDoor_events:
  "toggleDoor index (st\<lparr>pending := ps\<rparr>)
     = Returned (st\<lparr>pending := ps @ door_events st index\<rparr>)"
proof (cases "item (doors st) index")
  case None
  then show ?thesis by (simp add: toggleDoor.simps door_events_def)
next
  case (Some door)
  let ?io = "map_of (doorStates st) door"
  show ?thesis
  proof (cases "truthy ?io \<and> dependents st index \<noteq> []")
    case True
    let ?evs = "\<lambda>j. [drawer_tween st j (drawers st ! j) (map_of (drawerStates st) (drawers st ! j))]"
    have "forEach (\<lambda>dIdx. toggleDrawer dIdx True) (dependents st index) (st\<lparr>pending := ps\<rparr>)
        = Returned (st\<lparr>pending := ps @ concat (map ?evs (dependents st index))\<rparr>)"
      by (rule forEach_events) (simp add: toggleDrawer_forced dependents_item)
    moreover have "concat (map ?evs (dependents st index))
        = map (\<lambda>j. drawer_tween st j (drawers st ! j) (map_of (drawerStates st) (drawers st ! j)))
            (dependents st index)"
      by (induction "dependents st index") (simp_all add: concat_map_singleton)
    ultimately show ?thesis using Some True
      by (subst toggleDoor_unfold) (simp add: door_events_def setTimeout_def Let_def)
  next
    case False
    then show ?thesis using Some
      by (subst toggleDoor_unfold) (auto simp: door_events_def proceedToggleDoor_event Let_def)
  qed
qed

lemma toggleDrawer_events:
  assumes "\<not> door_missing st index forceClose"
  shows "toggleDrawer index forceClose (st\<lparr>pending := ps\<rparr>)
     = Returned (st\<lparr>pending := ps @ drawer_events st index forceClose\<rparr>)"
proof (cases "item (drawers st) index")
  case None
  then show ?thesis by (simp add: toggleDrawer.simps drawer_events_def)
next
  case (Some drawer)
  then show ?thesis using assms
    by (subst toggleDrawer.simps)
       (auto simp: drawer_events_def door_missing_def proceedToggleDrawer_event toggleDoor_events
          door_events_def setTimeout_def Let_def split: option.splits)
qed

lemma toggleDrawer_throws:
  assumes "door_missing st index forceClose"
  shows "toggleDrawer index forceClose st = Threw TypeError st"
  using assms
  by (subst toggleDrawer.simps) (auto simp: door_missing_def Let_def split: option.splits)

lemma item_Some: "item xs i = Some a \<longleftrightarrow> i < length xs \<and> xs ! i = a"
  by (auto simp: item_def)


lemma door_tween_facts [simp]:
  "mover (snd (door_tween st i d io)) = d"
  "writes (snd (door_tween st i d io)) = ((Door, d), \<not> truthy io)"
  "finish (door_tween st i d io) = clock st + 1200"
  "fst (door_tween st i d io) = clock st + 1200"
  by (simp_all add: door_tween_def)

lemma drawer_tween_facts [simp]:
  "mover (snd (drawer_tween st i d io)) = d"
  "writes (snd (drawer_tween st i d io)) = ((Drawer, d), \<not> truthy io)"
  "finish (drawer_tween st i d io) = clock st + 800"
  "fst (drawer_tween st i d io) = clock st + 800"
  by (simp_all add: drawer_tween_def)

lemma pending_self: "pending st = ps \<Longrightarrow> st\<lparr>pending := ps\<rparr> = st"
  by (cases st) auto

lemma toggleDoor_quiet:
  "quiet st \<Longrightarrow> toggleDoor index st = Returned (st\<lparr>pending := door_events st index\<rparr>)"
  using toggleDoor_events [where st = st and ps = "[]" and index = index]
  by (simp add: quiet_def pending_self)

lemma toggleDrawer_quiet:
  "quiet st \<Longrightarrow> \<not> door_missing st index forceClose \<Longrightarrow>
   toggleDrawer index forceClose st = Returned (st\<lparr>pending := drawer_events st index forceClose\<rparr>)"
  using toggleDrawer_events [where st = st and ps = "[]" and index = index]
  by (simp add: quiet_def pending_self)

lemma settle_quiet: "quiet (settle st)"
proof -
  have "\<not> (\<exists>p. p \<in> set (pending (run_until None st)))"
    using run_until_rest [of _ None st] by (auto simp: due_by_def)
  then show ?thesis by (cases "pending (run_until None st)") (auto simp: quiet_def settle_def)
qed

lemma dependents_mem:
  "j \<in> set (dependents st index) \<longleftrightarrow>
     drawerToDoorMap j = Some index \<and> j < length (drawers st) \<and>
     truthy (map_of (drawerStates st) (drawers st ! j))"
proof -
  have "j \<in> set drawerToDoorKeys" if "drawerToDoorMap j = Some index"
  proof -
    have "j \<le> 5" using that by (auto simp: drawerToDoorMap_def split: if_splits)
    then have "j = 0 \<or> j = 1 \<or> j = 2 \<or> j = 3 \<or> j = 4 \<or> j = 5" by arith
    then show ?thesis by (auto simp: drawerToDoorKeys_def)
  qed
  then show ?thesis by (auto simp: dependents_def item_def)
qed

lemma due_by_Some [simp]: "due_by (Some t) d \<longleftrightarrow> d \<le> t"
  by (simp add: due_by_def)

lemma due_by_None [simp]: "due_by None d"
  by (simp add: due_by_def)


lemma static_refl [simp]: "static st st"
  by (simp add: static_def)










lemma in_flight_iff:
  "in_flight st k \<longleftrightarrow> (\<exists>p \<in> set (pending st). \<exists>d obj ax target fin.
      p = (d, Tween obj ax target fin) \<and> obj = k)"
  unfolding in_flight_def list_ex_iff
  by (intro bex_cong refl) (auto split: event.splits prod.splits)

lemma in_flight_clock [simp]: "in_flight (st\<lparr>clock := t\<rparr>) k = in_flight st k"
  by (simp add: in_flight_def)

lemma in_flight_run:
  "in_flight (run_until (Some T) st) k \<longleftrightarrow>
     (\<exists>p \<in> set (pending st). mover (snd p) = k \<and> begins p \<le> T \<and> T < finish p)"
proof (induction "Some T" st rule: run_until.induct)
  case (1 st)
  show ?case
  proof (cases "next_event (pending st)")
    case None
    then show ?thesis by (subst run_until.simps) (simp add: in_flight_def)
  next
    case (Some a)
    then obtain d e ps where a: "a = (d, e, ps)" by (cases a) auto
    have mem: "set (pending st) = insert (d, e) (set ps)"
      using Some a next_event_set by simp
    have least: "\<forall>p \<in> set (pending st). d \<le> fst p"
      using Some a next_event_least by blast
    show ?thesis
    proof (cases "d \<le> T")
      case True
      let ?s = "fire e (st\<lparr>pending := ps, clock := d\<rparr>)"
      have run: "run_until (Some T) st = run_until (Some T) ?s"
        using Some a True by (subst run_until.simps) simp
      have IH: "in_flight (run_until (Some T) ?s) k \<longleftrightarrow>
          (\<exists>p \<in> set (pending ?s). mover (snd p) = k \<and> begins p \<le> T \<and> T < finish p)"
        using 1 [OF Some a [symmetric] refl] Some a True by simp
      show ?thesis
      proof (cases e)
        case (Timeout cb)
        obtain tw where tw: "fire (Timeout cb) (st\<lparr>pending := ps, clock := d\<rparr>)
            = st\<lparr>pending := ps, clock := d\<rparr>\<lparr>pending := ps @ [(finish (d, Timeout cb), tw)]\<rparr>"
          "mover tw = mover (Timeout cb)"
          "finish (finish (d, Timeout cb), tw) = finish (d, Timeout cb)"
          using fire_Timeout [of cb "st\<lparr>pending := ps, clock := d\<rparr>"] by auto
        have tween: "\<exists>obj ax target fin. tw = Tween obj ax target fin"
          using tw(3) by (cases tw rule: mover.cases; cases cb) auto
        then have b: "begins (finish (d, Timeout cb), tw) = 0" by auto
        show ?thesis unfolding run IH using mem Timeout tw True b by auto
      next
        case (Tween obj ax target fin)
        show ?thesis unfolding run IH using mem Tween True by auto
      qed
    next
      case False
      have run: "run_until (Some T) st = st\<lparr>clock := max (clock st) T\<rparr>"
        using Some a False by (subst run_until.simps) simp
      have "(\<exists>d obj ax target fin. p = (d, Tween obj ax target fin) \<and> obj = k)
          \<longleftrightarrow> mover (snd p) = k \<and> begins p \<le> T \<and> T < finish p"
        if "p \<in> set (pending st)" for p
      proof -
        have "T < fst p" using least that False by auto
        then show ?thesis by (cases p rule: finish.cases) auto
      qed
      then show ?thesis unfolding run by (auto simp: in_flight_iff)
    qed
  qed
qed

lemma not_in_flight:
  assumes "\<forall>p \<in> set (pending st). mover (snd p) \<noteq> k"
  shows "\<not> in_flight (run_until h st) k"
proof (cases h)
  case None
  have "quiet (settle st)" by (rule settle_quiet)
  then show ?thesis using None by (simp add: settle_def quiet_def in_flight_def)
next
  case (Some T)
  then show ?thesis using assms by (auto simp: in_flight_run)
qed



















lemma one_tween_lands:
  assumes "pending st = [(d, Tween k ax (Some v) fin)]"
  shows "coord ax (position (settle st) k) = v"
    and "ax' \<noteq> ax \<Longrightarrow> coord ax' (position (settle st) k) = coord ax' (position st k)"
    and "vy (position (settle st) k) = vy (position st k)"
proof -
  have a: "\<forall>p\<in>set (pending st). mover (snd p) = k \<longrightarrow> lands st k ax v (snd p)"
    using assms by simp
  have e: "\<exists>p\<in>set (pending st). mover (snd p) = k \<and> due_by None (finish p)"
    using assms by simp
  show "coord ax (position (settle st) k) = v"
    unfolding settle_def by (rule pos_deadline(1) [OF a e])
  show "ax' \<noteq> ax \<Longrightarrow> coord ax' (position (settle st) k) = coord ax' (position st k)"
    unfolding settle_def by (rule pos_deadline(2) [OF a e])
  show "vy (position (settle st) k) = vy (position st k)"
    unfolding settle_def by (rule pos_deadline(3) [OF a e])
qed

lemma find_name: "find (\<lambda>dn. n = dn) names = (if indexOf names n = None then None else Some n)"
  by (induction names) auto

lemma visit_doors:
  "doorData (visit cp sc) =
     (case candidate doorNames cp of None \<Rightarrow> doorData sc
      | Some e \<Rightarrow> if e_name e \<in> foundDoorParents sc then doorData sc else doorData sc @ [e])"
  "foundDoorParents (visit cp sc) =
     (case candidate doorNames cp of None \<Rightarrow> foundDoorParents sc
      | Some e \<Rightarrow> insert (e_name e) (foundDoorParents sc))"
  by (auto simp: visit_def candidate_def find_name Let_def split: option.splits)

lemma visit_drawers:
  "drawerData (visit cp sc) =
     (case candidate drawerNames cp of None \<Rightarrow> drawerData sc
      | Some e \<Rightarrow> if e_name e \<in> foundDrawerParents sc then drawerData sc else drawerData sc @ [e])"
  "foundDrawerParents (visit cp sc) =
     (case candidate drawerNames cp of None \<Rightarrow> foundDrawerParents sc
      | Some e \<Rightarrow> insert (e_name e) (foundDrawerParents sc))"
  by (auto simp: visit_def candidate_def find_name Let_def split: option.splits)

lemma fold_visit_doors:
  "doorData (fold visit L sc)
     = doorData sc @ first_by_name (foundDoorParents sc) (List.map_filter (candidate doorNames) L) \<and>
   foundDoorParents (fold visit L sc)
     = foundDoorParents sc \<union> e_name ` set (List.map_filter (candidate doorNames) L)"
proof (induction L arbitrary: sc)
  case Nil
  then show ?case by (simp add: List.map_filter_simps)
next
  case (Cons cp L)
  show ?case
    by (cases "candidate doorNames cp")
       (auto simp: Cons.IH visit_doors List.map_filter_simps insert_absorb)
qed

lemma fold_visit_drawers:
  "drawerData (fold visit L sc)
     = drawerData sc @ first_by_name (foundDrawerParents sc) (List.map_filter (candidate drawerNames) L) \<and>
   foundDrawerParents (fold visit L sc)
     = foundDrawerParents sc \<union> e_name ` set (List.map_filter (candidate drawerNames) L)"
proof (induction L arbitrary: sc)
  case Nil
  then show ?case by (simp add: List.map_filter_simps)
next
  case (Cons cp L)
  show ?case
    by (cases "candidate drawerNames cp")
       (auto simp: Cons.IH visit_drawers List.map_filter_simps insert_absorb)
qed

lemma first_by_name_names:
  "e_name ` set (first_by_name seen es) \<inter> seen = {} \<and> distinct (map e_name (first_by_name seen es))"
proof (induction es arbitrary: seen)
  case Nil
  then show ?case by simp
next
  case (Cons e es)
  show ?case
  proof (cases "e_name e \<in> seen")
    case True
    then show ?thesis using Cons.IH [of seen] by simp
  next
    case False
    then show ?thesis using Cons.IH [of "insert (e_name e) seen"] by auto
  qed
qed

lemma fold_registerDoor:
  "doors (fold registerDoor es st) = doors st @ map e_mesh es \<and>
   drawers (fold registerDoor es st) = drawers st"
  by (induction es arbitrary: st) (auto simp: registerDoor_def)

lemma fold_registerDrawer:
  "drawers (fold registerDrawer es st) = drawers st @ map e_mesh es \<and>
   doors (fold registerDrawer es st) = doors st"
  by (induction es arbitrary: st) (auto simp: registerDrawer_def)

lemma onLoad_panels:
  "doors (onLoad model st) = doors st @ map e_mesh (sort_key e_index (doorData (discover model)))"
  "drawers (onLoad model st) = drawers st @ map e_mesh (sort_key e_index (drawerData (discover model)))"
  by (simp_all add: onLoad_def createDoorButtons_def fold_registerDoor fold_registerDrawer Let_def
      split: option.splits prod.splits)

text \<open>
  Without its controlling door a closed drawer cannot be toggled open, and so not by
  \<open>toggleAllDrawers\<close> either: the read of \<open>door.uuid\<close> throws.
\<close>

lemma drawer_without_door_throws:
  "drawers (onLoad doorless (initial layout)) = [20] \<and>
   doors (onLoad doorless (initial layout)) = [] \<and>
   toggleDrawer 0 False (onLoad doorless (initial layout))
     = Threw TypeError (onLoad doorless (initial layout)) \<and>
   threw (toggleAllDrawers (onLoad doorless (initial layout)))"
proof -
  have a: "drawers (onLoad doorless (initial layout)) = [20] \<and>
      doors (onLoad doorless (initial layout)) = []"
    by code_simp
  have m: "door_missing (onLoad doorless (initial layout)) 0 False" by code_simp
  have t: "threw (toggleAllDrawers (onLoad doorless (initial layout)))" by code_simp
  show ?thesis using a toggleDrawer_throws [OF m] t by simp
qed

subsection \<open>What the loader leaves behind\<close>

text \<open>
  When the objects of the scene have different \<open>uuid\<close>s, the viewer is registered and at
  rest after loading, with every panel closed: the states the claims below start from.
\<close>

lemma traverse_parents:
  "(c, Some q) \<in> set (traverse p t) \<Longrightarrow> Some q = p \<or> q \<in> fst ` set (traverse p t)"
proof (induction t arbitrary: p c q)
  case (Object3D u n g cs)
  let ?t = "Object3D u n g cs"
  from Object3D.prems consider "(c, Some q) = (?t, p)"
    | child where "child \<in> set cs" "(c, Some q) \<in> set (traverse (Some ?t) child)"
    by auto
  then show ?case
  proof cases
    case 1
    then show ?thesis by simp
  next
    case 2
    from Object3D.IH [OF 2(1) 2(2)] have "q = ?t \<or> q \<in> fst ` set (traverse (Some ?t) child)"
      by auto
    then show ?thesis using 2(1) by auto
  qed
qed

lemma candidate_sound:
  assumes "e \<in> set (candidates names model)"
  shows "\<exists>q \<in> fst ` set (traverse None model). e = Entry (uuid q) (e_index e) (name q) \<and>
           indexOf names (name q) = Some (e_index e)"
proof -
  from assms obtain cp where cp: "cp \<in> set (traverse None model)" "candidate names cp = Some e"
    by (auto simp: candidates_def List.map_filter_def)
  obtain c p where cpp: "cp = (c, p)" by (cases cp)
  have "\<exists>q i. p = Some q \<and> indexOf names (name q) = Some i \<and> e = Entry (uuid q) i (name q)"
    using cp(2) cpp by (auto simp: candidate_def split: if_splits option.splits)
  then obtain q i where q: "cp = (c, Some q)" "indexOf names (name q) = Some i"
    "e = Entry (uuid q) i (name q)"
    using cpp by blast
  have "q \<in> fst ` set (traverse None model)"
    using traverse_parents [of c q None model] cp(1) q(1) by auto
  then show ?thesis using q by auto
qed

lemma first_by_name_subset: "set (first_by_name seen es) \<subseteq> set es"
  by (induction es arbitrary: seen) auto

lemma indexOf_Some_mem: "indexOf xs a = Some i \<Longrightarrow> a \<in> set xs"
  by (induction xs arbitrary: i) (auto split: if_splits)

lemma update_fresh: "k \<notin> fst ` set al \<Longrightarrow> AList.update k v al = al @ [(k, v)]"
  by (induction al) auto

lemma fold_registerDoor_full:
  assumes "distinct (map e_mesh es)" "set (map e_mesh es) \<inter> fst ` set (doorStates st) = {}"
  shows "doorStates (fold registerDoor es st) = doorStates st @ map (\<lambda>e. (e_mesh e, False)) es \<and>
         (\<forall>k. doorOriginalX (fold registerDoor es st) k
               = (if k \<in> e_mesh ` set es then Some (vx (position st k)) else doorOriginalX st k)) \<and>
         drawerStates (fold registerDoor es st) = drawerStates st \<and>
         drawerOriginalX (fold registerDoor es st) = drawerOriginalX st \<and>
         drawerOriginalZ (fold registerDoor es st) = drawerOriginalZ st \<and>
         position (fold registerDoor es st) = position st \<and>
         pending (fold registerDoor es st) = pending st"
  using assms
proof (induction es arbitrary: st)
  case Nil
  then show ?case by simp
next
  case (Cons e es)
  let ?s = "registerDoor e st"
  have fresh: "e_mesh e \<notin> fst ` set (doorStates st)" using Cons.prems(2) by auto
  have ds: "doorStates ?s = doorStates st @ [(e_mesh e, False)]"
    by (simp add: registerDoor_def update_fresh [OF fresh])
  have "set (map e_mesh es) \<inter> fst ` set (doorStates ?s) = {}"
    using Cons.prems by (auto simp: ds)
  from Cons.IH [OF _ this] Cons.prems(1)
  show ?case by (auto simp: ds) (auto simp: registerDoor_def)
qed

lemma fold_registerDrawer_full:
  assumes "distinct (map e_mesh es)" "set (map e_mesh es) \<inter> fst ` set (drawerStates st) = {}"
  shows "drawerStates (fold registerDrawer es st)
           = drawerStates st @ map (\<lambda>e. (e_mesh e, False)) es \<and>
         (\<forall>k. drawerOriginalX (fold registerDrawer es st) k
               = (if k \<in> e_mesh ` set es then Some (vx (position st k)) else drawerOriginalX st k)) \<and>
         (\<forall>k. drawerOriginalZ (fold registerDrawer es st) k
               = (if k \<in> e_mesh ` set es then Some (vz (position st k)) else drawerOriginalZ st k)) \<and>
         doorStates (fold registerDrawer es st) = doorStates st \<and>
         doorOriginalX (fold registerDrawer es st) = doorOriginalX st \<and>
         position (fold registerDrawer es st) = position st \<and>
         pending (fold registerDrawer es st) = pending st"
  using assms
proof (induction es arbitrary: st)
  case Nil
  then show ?case by simp
next
  case (Cons e es)
  let ?s = "registerDrawer e st"
  have fresh: "e_mesh e \<notin> fst ` set (drawerStates st)" using Cons.prems(2) by auto
  have ds: "drawerStates ?s = drawerStates st @ [(e_mesh e, False)]"
    by (simp add: registerDrawer_def update_fresh [OF fresh])
  have "set (map e_mesh es) \<inter> fst ` set (drawerStates ?s) = {}"
    using Cons.prems by (auto simp: ds)
  from Cons.IH [OF _ this] Cons.prems(1)
  show ?case by (auto simp: ds) (auto simp: registerDrawer_def)
qed

lemma sort_key_mesh:
  "distinct (map e_mesh (sort_key e_index es)) = distinct (map e_mesh es)"
  by (simp add: distinct_map)

lemma discovered_distinct:
  assumes "distinct (map (uuid \<circ> fst) (traverse None model))"
  shows "distinct (map e_mesh (doorData (discover model)) @ map e_mesh (drawerData (discover model)))"
proof -
  let ?D = "doorData (discover model)" and ?W = "drawerData (discover model)"
  have D: "?D = first_by_name {} (candidates doorNames model)"
    using fold_visit_doors [of "traverse None model"] by (simp add: discover_def candidates_def)
  have W: "?W = first_by_name {} (candidates drawerNames model)"
    using fold_visit_drawers [of "traverse None model"] by (simp add: discover_def candidates_def)
  have inj: "q = q'" if qq: "q \<in> fst ` set (traverse None model)"
    "q' \<in> fst ` set (traverse None model)" "uuid q = uuid q'" for q q'
  proof -
    have i: "inj_on (uuid \<circ> fst) (set (traverse None model))"
      using assms by (simp add: distinct_map)
    obtain cp cp' where c: "cp \<in> set (traverse None model)" "fst cp = q"
      "cp' \<in> set (traverse None model)" "fst cp' = q'"
      using qq(1,2) by auto
    then have e: "(uuid \<circ> fst) cp = (uuid \<circ> fst) cp'" using qq(3) by simp
    have "cp = cp'" by (rule inj_onD [OF i e c(1) c(3)])
    then show ?thesis using c by simp
  qed
  have same: "e_name e = e_name e'"
    if ee: "e \<in> set (candidates ns model)" "e' \<in> set (candidates ns' model)"
      "e_mesh e = e_mesh e'"
    for e e' ns ns'
  proof -
    obtain q where q: "q \<in> fst ` set (traverse None model)" "e = Entry (uuid q) (e_index e) (name q)"
      using candidate_sound [OF ee(1)] by blast
    obtain q' where q': "q' \<in> fst ` set (traverse None model)"
      "e' = Entry (uuid q') (e_index e') (name q')"
      using candidate_sound [OF ee(2)] by blast
    have "uuid q = uuid q'" using ee(3) q(2) q'(2) by (metis entry.sel(1))
    then have "q = q'" using inj q(1) q'(1) by blast
    then show ?thesis using q(2) q'(2) by (metis entry.sel(3))
  qed
  have Dsub: "set ?D \<subseteq> set (candidates doorNames model)"
    unfolding D by (rule first_by_name_subset)
  have Wsub: "set ?W \<subseteq> set (candidates drawerNames model)"
    unfolding W by (rule first_by_name_subset)
  have dn: "distinct (map e_name ?D)" unfolding D using first_by_name_names by blast
  have wn: "distinct (map e_name ?W)" unfolding W using first_by_name_names by blast
  have "inj_on e_name (set ?D)" using dn by (simp add: distinct_map)
  have d1: "distinct (map e_mesh ?D)"
  proof -
    have "inj_on e_mesh (set ?D)"
    proof (rule inj_onI)
      fix e e' assume e: "e \<in> set ?D" "e' \<in> set ?D" "e_mesh e = e_mesh e'"
      then have "e_name e = e_name e'" using same Dsub by blast
      then show "e = e'" using e dn by (auto simp: distinct_map inj_on_def)
    qed
    moreover have "distinct ?D" using dn by (rule distinct_map [THEN iffD1, THEN conjunct1])
    ultimately show ?thesis by (simp add: distinct_map)
  qed
  have d2: "distinct (map e_mesh ?W)"
  proof -
    have "inj_on e_mesh (set ?W)"
    proof (rule inj_onI)
      fix e e' assume e: "e \<in> set ?W" "e' \<in> set ?W" "e_mesh e = e_mesh e'"
      then have "e_name e = e_name e'" using same Wsub by blast
      then show "e = e'" using e wn by (auto simp: distinct_map inj_on_def)
    qed
    moreover have "distinct ?W" using wn by (rule distinct_map [THEN iffD1, THEN conjunct1])
    ultimately show ?thesis by (simp add: distinct_map)
  qed
  have d3: "e_mesh e \<noteq> e_mesh e'" if ee: "e \<in> set ?D" "e' \<in> set ?W" for e e'
  proof
    assume m: "e_mesh e = e_mesh e'"
    have c: "e \<in> set (candidates doorNames model)" "e' \<in> set (candidates drawerNames model)"
      using ee Dsub Wsub by auto
    have n: "e_name e = e_name e'" using same [OF c m] .
    obtain q where "e = Entry (uuid q) (e_index e) (name q)"
      "indexOf doorNames (name q) = Some (e_index e)"
      using candidate_sound [OF c(1)] by blast
    then have a: "e_name e \<in> set doorNames" by (metis entry.sel(3) indexOf_Some_mem)
    obtain q' where "e' = Entry (uuid q') (e_index e') (name q')"
      "indexOf drawerNames (name q') = Some (e_index e')"
      using candidate_sound [OF c(2)] by blast
    then have b: "e_name e' \<in> set drawerNames" by (metis entry.sel(3) indexOf_Some_mem)
    have "set doorNames \<inter> set drawerNames = {}" by (simp add: doorNames_def drawerNames_def)
    then show False using a b n by auto
  qed
  show ?thesis using d1 d2 d3 by auto
qed

lemma onLoad_fields:
  "doorStates (onLoad model st)
     = doorStates (fold registerDrawer (sort_key e_index (drawerData (discover model)))
         (fold registerDoor (sort_key e_index (doorData (discover model)))
            (st\<lparr>modelRef := Some model\<rparr>)))"
  "drawerStates (onLoad model st)
     = drawerStates (fold registerDrawer (sort_key e_index (drawerData (discover model)))
         (fold registerDoor (sort_key e_index (doorData (discover model)))
            (st\<lparr>modelRef := Some model\<rparr>)))"
  "doorOriginalX (onLoad model st)
     = doorOriginalX (fold registerDrawer (sort_key e_index (drawerData (discover model)))
         (fold registerDoor (sort_key e_index (doorData (discover model)))
            (st\<lparr>modelRef := Some model\<rparr>)))"
  "drawerOriginalX (onLoad model st)
     = drawerOriginalX (fold registerDrawer (sort_key e_index (drawerData (discover model)))
         (fold registerDoor (sort_key e_index (doorData (discover model)))
            (st\<lparr>modelRef := Some model\<rparr>)))"
  "drawerOriginalZ (onLoad model st)
     = drawerOriginalZ (fold registerDrawer (sort_key e_index (drawerData (discover model)))
         (fold registerDoor (sort_key e_index (doorData (discover model)))
            (st\<lparr>modelRef := Some model\<rparr>)))"
  "pending (onLoad model st)
     = pending (fold registerDrawer (sort_key e_index (drawerData (discover model)))
         (fold registerDoor (sort_key e_index (doorData (discover model)))
            (st\<lparr>modelRef := Some model\<rparr>)))"
  by (simp_all add: onLoad_def createDoorButtons_def Let_def split: option.splits prod.splits)

lemma onLoad_registered:
  assumes "distinct (map (uuid \<circ> fst) (traverse None model))"
  shows "registered (onLoad model (initial pos)) \<and> quiet (onLoad model (initial pos)) \<and>
         list_all (\<lambda>s. \<not> s) (map snd (doorStates (onLoad model (initial pos)))) \<and>
         list_all (\<lambda>s. \<not> s) (map snd (drawerStates (onLoad model (initial pos))))"
proof -
  let ?Ds = "sort_key e_index (doorData (discover model))"
  let ?Ws = "sort_key e_index (drawerData (discover model))"
  let ?ini = "(initial pos)\<lparr>modelRef := Some model\<rparr>"
  let ?mid = "fold registerDoor ?Ds ?ini"
  let ?fin = "fold registerDrawer ?Ws ?mid"
  let ?res = "onLoad model (initial pos)"
  have dist: "distinct (map e_mesh ?Ds @ map e_mesh ?Ws)"
    using discovered_distinct [OF assms] by (simp add: sort_key_mesh)
  have d1: "distinct (map e_mesh ?Ds)" and d2: "distinct (map e_mesh ?Ws)"
    using dist by simp_all
  have e0: "doorStates ?ini = []" "drawerStates ?ini = []" "pending ?ini = []"
    "doorOriginalX ?ini = Map.empty"
    by (simp_all add: initial_def)
  have r1: "doorStates ?mid = doorStates ?ini @ map (\<lambda>e. (e_mesh e, False)) ?Ds \<and>
         (\<forall>k. doorOriginalX ?mid k
               = (if k \<in> e_mesh ` set ?Ds then Some (vx (position ?ini k)) else doorOriginalX ?ini k)) \<and>
         drawerStates ?mid = drawerStates ?ini \<and>
         drawerOriginalX ?mid = drawerOriginalX ?ini \<and>
         drawerOriginalZ ?mid = drawerOriginalZ ?ini \<and>
         position ?mid = position ?ini \<and>
         pending ?mid = pending ?ini"
    by (rule fold_registerDoor_full [OF d1]) (simp add: e0)
  have r2: "drawerStates ?fin = drawerStates ?mid @ map (\<lambda>e. (e_mesh e, False)) ?Ws \<and>
         (\<forall>k. drawerOriginalX ?fin k
               = (if k \<in> e_mesh ` set ?Ws then Some (vx (position ?mid k)) else drawerOriginalX ?mid k)) \<and>
         (\<forall>k. drawerOriginalZ ?fin k
               = (if k \<in> e_mesh ` set ?Ws then Some (vz (position ?mid k)) else drawerOriginalZ ?mid k)) \<and>
         doorStates ?fin = doorStates ?mid \<and>
         doorOriginalX ?fin = doorOriginalX ?mid \<and>
         position ?fin = position ?mid \<and>
         pending ?fin = pending ?mid"
    by (rule fold_registerDrawer_full [OF d2]) (simp add: r1 e0)
  have doors: "doors ?res = map e_mesh ?Ds" and drawers: "drawers ?res = map e_mesh ?Ws"
    by (simp_all add: onLoad_panels initial_def)
  have ds: "doorStates ?res = map (\<lambda>e. (e_mesh e, False)) ?Ds"
    using r1 r2 e0 by (simp add: onLoad_fields)
  have ws: "drawerStates ?res = map (\<lambda>e. (e_mesh e, False)) ?Ws"
    using r1 r2 e0 by (simp add: onLoad_fields)
  have ox: "\<forall>d \<in> set (doors ?res). doorOriginalX ?res d \<noteq> None"
    using r1 r2 by (auto simp: onLoad_fields doors)
  have wx: "\<forall>d \<in> set (drawers ?res). drawerOriginalZ ?res d \<noteq> None \<and> drawerOriginalX ?res d \<noteq> None"
    using r2 by (auto simp: onLoad_fields drawers)
  have q: "pending ?res = []" using r1 r2 e0 by (simp add: onLoad_fields)
  have "registered ?res"
    unfolding registered_def using dist ox wx by (simp add: doors drawers ds ws comp_def)
  moreover have "quiet ?res" using q by (simp add: quiet_def)
  moreover have "list_all (\<lambda>s. \<not> s) (map snd (doorStates ?res))"
    by (simp add: ds list_all_iff)
  moreover have "list_all (\<lambda>s. \<not> s) (map snd (drawerStates ?res))"
    by (simp add: ws list_all_iff)
  ultimately show ?thesis by blast
qed

section \<open>The claims\<close>

subsection \<open>C1: the axis and the direction of a drawer\<close>

text \<open>
  Claim C1 says that every drawer opens in the positive direction of its axis: the target
  of the opening is the original offset plus the pull amount. For the two top drawers
  (index 0 and 1) the source subtracts the pull amount instead, on purpose (its comment
  says the direction is reversed because the drawer would otherwise move into the
  cabinet). In the cabinet the first drawer, at original X offset 0 and with pull amount
  0.28, opens to X = -0.28.
\<close>

theorem C1_counterexample:
  "item (drawers showroom) 0 = Some 20 \<and> map_of (drawerStates showroom) 20 = Some False \<and>
   drawerOriginalX showroom 20 = Some 0 \<and> getDrawerPullAmount showroom 20 0 = 7 / 25 \<and>
   vx (position (settle (proceedToggleDrawer 0 20 (Some False) showroom)) 20) = - (7 / 25) \<and>
   vx (position (settle (proceedToggleDrawer 0 20 (Some False) showroom)) 20) \<noteq> 0 + 7 / 25"
  by code_simp

text \<open>
  Claim C1, amended. For every drawer the opening transition moves it along the axis
  determined by its role, and only along it: a top drawer (index 0 or 1) ends at its
  original X offset minus its pull amount, every other drawer at its original Z offset plus
  its pull amount.
\<close>

theorem C1_open_target:
  assumes "quiet st" and "\<not> truthy isOpen"
    and "drawerOriginalX st drawer = Some ox" and "drawerOriginalZ st drawer = Some oz"
  shows "(index = 0 \<or> index = 1 \<longrightarrow>
            position (settle (proceedToggleDrawer index drawer isOpen st)) drawer
              = Vector3 (ox - getDrawerPullAmount st drawer index)
                  (vy (position st drawer)) (vz (position st drawer))) \<and>
         (\<not> (index = 0 \<or> index = 1) \<longrightarrow>
            position (settle (proceedToggleDrawer index drawer isOpen st)) drawer
              = Vector3 (vx (position st drawer)) (vy (position st drawer))
                  (oz + getDrawerPullAmount st drawer index))"
proof -
  let ?tw = "drawer_tween st index drawer isOpen"
  let ?s = "st\<lparr>pending := [?tw]\<rparr>"
  let ?pull = "getDrawerPullAmount st drawer index"
  have p: "proceedToggleDrawer index drawer isOpen st = ?s"
    using assms(1) by (simp add: proceedToggleDrawer_event quiet_def)
  have top: "position (settle ?s) drawer
      = Vector3 (ox - ?pull) (vy (position st drawer)) (vz (position st drawer))"
    if "index = 0 \<or> index = 1"
  proof -
    have pe: "pending ?s = [(clock st + 800,
        Tween drawer AxisX (Some (ox - ?pull)) (DrawerComplete drawer index True))]"
      using that assms(2,3) by (auto simp: drawer_tween_def)
    from one_tween_lands [OF pe] one_tween_lands(2) [OF pe, of AxisZ]
    show ?thesis by (cases "position (settle ?s) drawer") (simp add: coord_def)
  qed
  have rest: "position (settle ?s) drawer
      = Vector3 (vx (position st drawer)) (vy (position st drawer)) (oz + ?pull)"
    if "\<not> (index = 0 \<or> index = 1)"
  proof -
    have pe: "pending ?s = [(clock st + 800,
        Tween drawer AxisZ (Some (oz + ?pull)) (DrawerComplete drawer index True))]"
      using that assms(2,4) by (auto simp: drawer_tween_def)
    from one_tween_lands [OF pe] one_tween_lands(2) [OF pe, of AxisX]
    show ?thesis by (cases "position (settle ?s) drawer") (simp add: coord_def)
  qed
  show ?thesis unfolding p using top rest by blast
qed

theorem C1_witness:
  "quiet showroom \<and> \<not> truthy (Some False) \<and>
   drawerOriginalX showroom 20 = Some 0 \<and> drawerOriginalZ showroom 20 = Some (1 / 4) \<and>
   drawerOriginalX showroom 22 = Some 1 \<and> drawerOriginalZ showroom 22 = Some (1 / 4) \<and>
   position (settle (proceedToggleDrawer 0 20 (Some False) showroom)) 20
     = Vector3 (0 - getDrawerPullAmount showroom 20 0) (vy (position showroom 20))
         (vz (position showroom 20)) \<and>
   position (settle (proceedToggleDrawer 2 22 (Some False) showroom)) 22
     = Vector3 (vx (position showroom 22)) (vy (position showroom 22))
         (1 / 4 + getDrawerPullAmount showroom 22 2)"
proof -
  have h1: "quiet showroom" by code_simp
  have h2: "\<not> truthy (Some False)" by code_simp
  have a: "drawerOriginalX showroom 20 = Some 0" by code_simp
  have b: "drawerOriginalZ showroom 20 = Some (1 / 4)" by code_simp
  have c: "drawerOriginalX showroom 22 = Some 1" by code_simp
  have d: "drawerOriginalZ showroom 22 = Some (1 / 4)" by code_simp
  show ?thesis
    using C1_open_target [OF h1 h2 a b, of 0] C1_open_target [OF h1 h2 c d, of 2] h1 h2 a b c d
    by simp
qed

subsection \<open>C2: a drawer behind a closed door\<close>

text \<open>
  Claim C2 says that toggling a drawer whose controlling door is closed first lets the
  door's whole opening animation (1200 ms) run, and that only then the drawer begins to
  open. The source starts the drawer earlier on purpose: it opens the door and sets a
  timeout of 900 ms for the drawer. In the cabinet, one second after the press on the
  third drawer button the drawer is already moving while the middle door is still moving
  and not yet open.
\<close>

theorem C2_counterexample:
  "item (drawers showroom) 2 = Some 22 \<and> drawerToDoorMap 2 = Some 1 \<and>
   item (doors showroom) 1 = Some 2 \<and> map_of (doorStates showroom) 2 = Some False \<and>
   in_flight (run_until (Some 1000) (state_of (toggleDrawer 2 False showroom))) 22 \<and>
   in_flight (run_until (Some 1000) (state_of (toggleDrawer 2 False showroom))) 2 \<and>
   map_of (doorStates (run_until (Some 1000) (state_of (toggleDrawer 2 False showroom)))) 2
     = Some False"
  by code_simp

text \<open>
  Claim C2, amended. For every closed drawer whose controlling door is closed, the toggle
  of that drawer starts the door's opening animation at once and the drawer's own opening
  animation 900 ms later, that is 300 ms before the door's animation ends. With \<open>t\<close> the
  time of the toggle: the door is being animated before \<open>t + 1200\<close> and is open from then
  on; the drawer is being animated from \<open>t + 900\<close> until \<open>t + 1700\<close> and is open from then
  on.
\<close>

theorem C2_door_then_drawer:
  assumes "registered st" and "quiet st"
    and "item (drawers st) index = Some drawer"
    and "\<not> truthy (map_of (drawerStates st) drawer)"
    and "drawerToDoorMap index = Some c"
    and "item (doors st) c = Some door"
    and "\<not> truthy (map_of (doorStates st) door)"
  shows "\<not> threw (toggleDrawer index False st) \<and>
     (in_flight (run_until (Some T) (state_of (toggleDrawer index False st))) door
        \<longleftrightarrow> T < clock st + 1200) \<and>
     (in_flight (run_until (Some T) (state_of (toggleDrawer index False st))) drawer
        \<longleftrightarrow> clock st + 900 \<le> T \<and> T < clock st + 1700) \<and>
     (map_of (doorStates (run_until (Some T) (state_of (toggleDrawer index False st)))) door
        = Some True \<longleftrightarrow> clock st + 1200 \<le> T) \<and>
     (map_of (drawerStates (run_until (Some T) (state_of (toggleDrawer index False st)))) drawer
        = Some True \<longleftrightarrow> clock st + 1700 \<le> T)"
proof -
  let ?A = "door_tween st c door (map_of (doorStates st) door)"
  let ?B = "(clock st + 900, Timeout (ProceedToggleDrawer index drawer (map_of (drawerStates st) drawer)))"
  let ?st' = "st\<lparr>pending := [?A, ?B]\<rparr>"
  let ?s = "run_until (Some T) ?st'"
  have nm: "\<not> door_missing st index False"
    using assms(3,5,6) by (simp add: door_missing_def)
  have ev: "drawer_events st index False = [?A, ?B]"
    using assms(3-7) by (simp add: drawer_events_def Let_def)
  have r: "toggleDrawer index False st = Returned ?st'"
    using toggleDrawer_quiet [OF assms(2) nm] ev by simp
  have "door \<in> set (doors st)" "drawer \<in> set (drawers st)"
    using assms(3,6) by (auto simp: item_Some)
  moreover have "set (doors st) \<inter> set (drawers st) = {}"
    using assms(1) by (auto simp: registered_def)
  ultimately have dd: "door \<noteq> drawer" by auto
  have f1: "in_flight ?s door \<longleftrightarrow> T < clock st + 1200"
    using dd by (auto simp: in_flight_run door_tween_def)
  have f2: "in_flight ?s drawer \<longleftrightarrow> clock st + 900 \<le> T \<and> T < clock st + 1700"
    using dd by (auto simp: in_flight_run door_tween_def)
  have d1: "panel_state ?s (Door, door) = Some True" if "clock st + 1200 \<le> T"
    by (rule state_deadline) (use that assms(7) in simp_all)
  have d2: "panel_state ?s (Door, door) = panel_state ?st' (Door, door)" if "T < clock st + 1200"
    by (rule state_not_before) (use that in simp)
  have w1: "panel_state ?s (Drawer, drawer) = Some True" if "clock st + 1700 \<le> T"
    by (rule state_deadline) (use that assms(4) in simp_all)
  have w2: "panel_state ?s (Drawer, drawer) = panel_state ?st' (Drawer, drawer)"
    if "T < clock st + 1700"
    by (rule state_not_before) (use that in simp)
  have s1: "map_of (doorStates ?s) door = Some True \<longleftrightarrow> clock st + 1200 \<le> T"
    using d1 d2 assms(7) by (cases "clock st + 1200 \<le> T") (auto simp: truthy_def)
  have s2: "map_of (drawerStates ?s) drawer = Some True \<longleftrightarrow> clock st + 1700 \<le> T"
    using w1 w2 assms(4) by (cases "clock st + 1700 \<le> T") (auto simp: truthy_def)
  show ?thesis using r f1 f2 s1 s2 by simp
qed

theorem C2_witness:
  "registered showroom \<and> quiet showroom \<and> item (drawers showroom) 2 = Some 22 \<and>
   \<not> truthy (map_of (drawerStates showroom) 22) \<and> drawerToDoorMap 2 = Some 1 \<and>
   item (doors showroom) 1 = Some 2 \<and> \<not> truthy (map_of (doorStates showroom) 2) \<and>
   clock showroom = 0 \<and>
   \<not> threw (toggleDrawer 2 False showroom) \<and>
   in_flight (run_until (Some 1000) (state_of (toggleDrawer 2 False showroom))) 2 \<and>
   in_flight (run_until (Some 1000) (state_of (toggleDrawer 2 False showroom))) 22 \<and>
   map_of (doorStates (run_until (Some 1000) (state_of (toggleDrawer 2 False showroom)))) 2
     \<noteq> Some True"
proof -
  have h1: "registered showroom" by code_simp
  have h2: "quiet showroom" by code_simp
  have h3: "item (drawers showroom) 2 = Some 22" by code_simp
  have h4: "\<not> truthy (map_of (drawerStates showroom) 22)" by code_simp
  have h5: "drawerToDoorMap 2 = Some 1" by code_simp
  have h6: "item (doors showroom) 1 = Some 2" by code_simp
  have h7: "\<not> truthy (map_of (doorStates showroom) 2)" by code_simp
  have t: "clock showroom = 0" by code_simp
  show ?thesis
    using C2_door_then_drawer [OF h1 h2 h3 h4 h5 h6 h7, of 1000] h1 h2 h3 h4 h5 h6 h7 t
    by simp
qed

subsection \<open>C3: the drawers are closed before the door is\<close>



subsection \<open>C4: which groups discovery registers\<close>

text \<open>
  Claim C4 says that when a structural name occurs under more than one parent, one panel is
  registered per distinct parent, so that discovery would tell parents apart by identity.
  In the source the name that is matched is the name of the parent group, and the set that
  suppresses repetitions holds names: of several groups bearing the same name only the
  first one met is registered. In the scene with two groups named \<open>Box2449\<close>, each with a
  mesh, one door is registered, the first group.
\<close>

theorem C4_counterexample:
  "map uuid (children twins) = [1, 4] \<and> map name (children twins) = [''Box2449'', ''Box2449''] \<and>
   map isMesh (children (children twins ! 0)) = [True] \<and>
   map isMesh (children (children twins ! 1)) = [True] \<and>
   doorData (discover twins) = [Entry 1 0 ''Box2449''] \<and>
   doors (onLoad twins (initial layout)) = [1]"
  by code_simp

text \<open>
  Claim C4, amended. During panel discovery at most one panel is registered for every
  structural name, however many distinct parents bear it: the parent of the first mesh,
  in traversal order, whose parent has that name. Repetitions are told apart by the
  parent's name, not by its identity. The registered doors and drawers are these parents,
  sorted by the index of their name.
\<close>

theorem C4_first_parent_of_each_name:
  "doorData (discover model) = first_by_name {} (candidates doorNames model) \<and>
   drawerData (discover model) = first_by_name {} (candidates drawerNames model) \<and>
   distinct (map e_name (doorData (discover model))) \<and>
   distinct (map e_name (drawerData (discover model))) \<and>
   doors (onLoad model (initial pos)) = map e_mesh (sort_key e_index (doorData (discover model))) \<and>
   drawers (onLoad model (initial pos))
     = map e_mesh (sort_key e_index (drawerData (discover model)))"
proof -
  have a: "doorData (discover model) = first_by_name {} (candidates doorNames model)"
    using fold_visit_doors [of "traverse None model"] by (simp add: discover_def candidates_def)
  have b: "drawerData (discover model) = first_by_name {} (candidates drawerNames model)"
    using fold_visit_drawers [of "traverse None model"] by (simp add: discover_def candidates_def)
  have c: "distinct (map e_name (doorData (discover model)))"
    unfolding a using first_by_name_names by blast
  have d: "distinct (map e_name (drawerData (discover model)))"
    unfolding b using first_by_name_names by blast
  have e: "doors (onLoad model (initial pos))
      = map e_mesh (sort_key e_index (doorData (discover model)))"
    by (simp add: onLoad_panels initial_def)
  have f: "drawers (onLoad model (initial pos))
      = map e_mesh (sort_key e_index (drawerData (discover model)))"
    by (simp add: onLoad_panels initial_def)
  show ?thesis using a b c d e f by blast
qed

theorem C4_witness:
  "candidates doorNames twins = [Entry 1 0 ''Box2449'', Entry 4 0 ''Box2449''] \<and>
   first_by_name {} (candidates doorNames twins) = [Entry 1 0 ''Box2449''] \<and>
   doorData (discover twins) = [Entry 1 0 ''Box2449''] \<and>
   doors (onLoad twins (initial layout)) = [1]"
proof -
  have a: "candidates doorNames twins = [Entry 1 0 ''Box2449'', Entry 4 0 ''Box2449'']"
    by code_simp
  have b: "first_by_name {} [Entry 1 0 ''Box2449'', Entry 4 0 ''Box2449''] = [Entry 1 0 ''Box2449'']"
    by simp
  show ?thesis
    using C4_first_parent_of_each_name [of twins layout] a b by simp
qed

subsection \<open>C5: open, then closed, is back at the original offset\<close>



subsection \<open>C6: \<open>toggleAllDoors\<close> and \<open>toggleAllDrawers\<close>\<close>



subsection \<open>C7: the travel distance\<close>

text \<open>
  Claim C7 says that the travel distance of a panel is derived once, from the extent
  measured at discovery, and never changes. The source stores no travel distance:
  \<open>getSlidingAmount\<close> and \<open>getDrawerPullAmount\<close> measure the bounding box anew inside every
  toggle, and discovery records positions only. The two differ as soon as the box of a
  panel has changed. In the cabinet whose first drawer hangs below the middle door, the
  middle door measures 1 at discovery (travel 0.95); once that drawer has been pulled out
  the door measures 1.28, and opening the door then moves it by 1.216.
\<close>

theorem C7_counterexample:
  "item (doors nested_loaded) 1 = Some 2 \<and> getSlidingAmount nested_loaded 2 1 = 19 / 20 \<and>
   item (doors nested_used) 1 = Some 2 \<and> map_of (doorStates nested_used) 2 = Some False \<and>
   doorOriginalX nested_used 2 = Some 1 \<and>
   vx (position (settle (state_of (toggleDoor 1 nested_used))) 2) = 1 - 152 / 125 \<and>
   vx (position (settle (state_of (toggleDoor 1 nested_used))) 2) \<noteq> 1 - 19 / 20"
  by code_simp

text \<open>
  Claim C7, amended. For every panel, the travel distance used by an opening toggle is the
  larger of the X and Z extents of the panel's bounding box, as measured when that toggle
  sets up its animation, times 0.95 for a door and 0.35 for a drawer; it is computed anew
  at every toggle and nothing is stored at discovery. (Doors 0 and 1 and the two top
  drawers move by it in the negative X direction, door 2 in the positive X direction, the
  other drawers in the positive Z direction.)
\<close>

theorem C7_travel_measured_at_toggle:
  assumes "quiet st"
  shows "(\<forall>door ox. item (doors st) index = Some door \<and>
            \<not> truthy (map_of (doorStates st) door) \<and> doorOriginalX st door = Some ox \<longrightarrow>
            vx (position (settle (state_of (toggleDoor index st))) door)
              = ox + max (vx (getSize (setFromObject (modelRef st) (position st) door)))
                         (vz (getSize (setFromObject (modelRef st) (position st) door))) * 0.95
                     * (if index = 0 \<or> index = 1 then - 1 else 1)) \<and>
         (\<forall>drawer ox oz. item (drawers st) index = Some drawer \<and>
            \<not> truthy (map_of (drawerStates st) drawer) \<and>
            drawerOriginalX st drawer = Some ox \<and> drawerOriginalZ st drawer = Some oz \<longrightarrow>
            coord (if index = 0 \<or> index = 1 then AxisX else AxisZ)
                (position (settle (state_of (toggleDrawer index True st))) drawer)
              = (if index = 0 \<or> index = 1 then ox else oz)
                + max (vz (getSize (setFromObject (modelRef st) (position st) drawer)))
                      (vx (getSize (setFromObject (modelRef st) (position st) drawer))) * 0.35
                  * (if index = 0 \<or> index = 1 then - 1 else 1))"
proof (intro conjI allI impI)
  fix door ox
  assume a: "item (doors st) index = Some door \<and>
            \<not> truthy (map_of (doorStates st) door) \<and> doorOriginalX st door = Some ox"
  let ?e = "max (vx (getSize (setFromObject (modelRef st) (position st) door)))
                (vz (getSize (setFromObject (modelRef st) (position st) door)))"
  let ?v = "ox + ?e * 0.95 * (if index = 0 \<or> index = 1 then - 1 else 1)"
  let ?s = "st\<lparr>pending := door_events st index\<rparr>"
  have r: "state_of (toggleDoor index st) = ?s" using toggleDoor_quiet [OF assms] by simp
  have pe: "pending ?s = [(clock st + 1200,
      Tween door AxisX (Some ?v) (DoorComplete door index True))]"
    using a by (auto simp: door_events_def door_tween_def getSlidingAmount_def Let_def)
  show "vx (position (settle (state_of (toggleDoor index st))) door) = ?v"
    unfolding r using one_tween_lands(1) [OF pe] by (simp add: coord_def)
next
  fix drawer ox oz
  assume a: "item (drawers st) index = Some drawer \<and>
            \<not> truthy (map_of (drawerStates st) drawer) \<and>
            drawerOriginalX st drawer = Some ox \<and> drawerOriginalZ st drawer = Some oz"
  let ?e = "max (vz (getSize (setFromObject (modelRef st) (position st) drawer)))
                (vx (getSize (setFromObject (modelRef st) (position st) drawer)))"
  let ?ax = "if index = 0 \<or> index = 1 then AxisX else AxisZ"
  let ?v = "(if index = 0 \<or> index = 1 then ox else oz)
             + ?e * 0.35 * (if index = 0 \<or> index = 1 then - 1 else 1)"
  let ?s = "st\<lparr>pending := [drawer_tween st index drawer (map_of (drawerStates st) drawer)]\<rparr>"
  have "toggleDrawer index True st = Returned ?s"
    using toggleDrawer_forced [of st index drawer "[]"] a assms
    by (simp add: quiet_def pending_self)
  then have r: "state_of (toggleDrawer index True st) = ?s" by simp
  have pe: "pending ?s = [(clock st + 800,
      Tween drawer ?ax (Some ?v) (DrawerComplete drawer index True))]"
    using a by (auto simp: drawer_tween_def getDrawerPullAmount_def Let_def)
  show "coord ?ax (position (settle (state_of (toggleDrawer index True st))) drawer) = ?v"
    unfolding r using one_tween_lands(1) [OF pe] by simp
qed

theorem C7_witness:
  "quiet showroom \<and> item (doors showroom) 1 = Some 2 \<and>
   \<not> truthy (map_of (doorStates showroom) 2) \<and> doorOriginalX showroom 2 = Some 1 \<and>
   getSize (setFromObject (modelRef showroom) (position showroom) 2) = Vector3 1 2 (1 / 20) \<and>
   vx (position (settle (state_of (toggleDoor 1 showroom))) 2) = 1 / 20 \<and>
   item (drawers showroom) 1 = Some 21 \<and> \<not> truthy (map_of (drawerStates showroom) 21) \<and>
   drawerOriginalX showroom 21 = Some 1 \<and> drawerOriginalZ showroom 21 = Some (1 / 4) \<and>
   getSize (setFromObject (modelRef showroom) (position showroom) 21)
     = Vector3 (4 / 5) (1 / 5) (1 / 2) \<and>
   vx (position (settle (state_of (toggleDrawer 1 True showroom))) 21) = 18 / 25"
proof -
  have h: "quiet showroom" by code_simp
  have a: "item (doors showroom) 1 = Some 2 \<and>
      \<not> truthy (map_of (doorStates showroom) 2) \<and> doorOriginalX showroom 2 = Some 1"
    by code_simp
  have b: "getSize (setFromObject (modelRef showroom) (position showroom) 2)
      = Vector3 1 2 (1 / 20)"
    by code_simp
  have c: "item (drawers showroom) 1 = Some 21 \<and> \<not> truthy (map_of (drawerStates showroom) 21) \<and>
      drawerOriginalX showroom 21 = Some 1 \<and> drawerOriginalZ showroom 21 = Some (1 / 4)"
    by code_simp
  have d: "getSize (setFromObject (modelRef showroom) (position showroom) 21)
      = Vector3 (4 / 5) (1 / 5) (1 / 2)"
    by code_simp
  note t = C7_travel_measured_at_toggle [OF h, of 1]
  have "vx (position (settle (state_of (toggleDoor 1 showroom))) 2)
      = 1 + max (vx (getSize (setFromObject (modelRef showroom) (position showroom) 2)))
                (vz (getSize (setFromObject (modelRef showroom) (position showroom) 2))) * 0.95
            * (if (1::nat) = 0 \<or> (1::nat) = 1 then - 1 else 1)"
    using t a by blast
  then have e: "vx (position (settle (state_of (toggleDoor 1 showroom))) 2) = 1 / 20"
    by (simp add: b)
  have "coord (if (1::nat) = 0 \<or> (1::nat) = 1 then AxisX else AxisZ)
        (position (settle (state_of (toggleDrawer 1 True showroom))) 21)
      = (if (1::nat) = 0 \<or> (1::nat) = 1 then 1 else 1 / 4)
        + max (vz (getSize (setFromObject (modelRef showroom) (position showroom) 21)))
              (vx (getSize (setFromObject (modelRef showroom) (position showroom) 21))) * 0.35
          * (if (1::nat) = 0 \<or> (1::nat) = 1 then - 1 else 1)"
    using t c by blast
  then have f: "vx (position (settle (state_of (toggleDrawer 1 True showroom))) 21) = 18 / 25"
    by (simp add: d coord_def)
  show ?thesis using h a b c d e f by simp
qed

subsection \<open>C8: the pointer over a drawer\<close>

text \<open>
  Claim C8. Hit-testing is against all panels, doors before drawers; a hit on a mesh
  resolves to the panel that owns it; on hover the panel's number and a prompt are shown,
  and the prompt is cleared when no panel is under the pointer. \<open>onClick\<close> does test the
  doors and then the drawers, but \<open>onMouseMove\<close> tests the doors only. In the cabinet in
  use (middle door and third drawer open), a ray that meets only the mesh of the third
  drawer resolves to that drawer and a click there toggles it; yet moving the pointer there
  from the middle door, where the prompt to close door 2 was showing, hides the prompt and
  takes the pointer cursor away.
\<close>

theorem C8_hover_ignores_drawers:
  "item (drawers in_use) 2 = Some 22 \<and>
   intersectObjects in_use (doors in_use) [32] = [] \<and>
   intersectObjects in_use (drawers in_use) [32] = [32] \<and>
   walk_up in_use (drawers in_use) 32 = Some 22 \<and>
   pending (state_of (onClick [32] in_use))
     = [(3300, Tween 22 AxisZ (Some (1 / 4)) (DrawerComplete 22 2 False))] \<and>
   tooltipVisible (onMouseMove [12] in_use) \<and>
   tooltipText (onMouseMove [12] in_use) = Some (2, True) \<and>
   \<not> tooltipVisible (onMouseMove [32] (onMouseMove [12] in_use)) \<and>
   \<not> pointerClass (onMouseMove [32] (onMouseMove [12] in_use))"
  by code_simp

subsection \<open>C9: the force flag of \<open>toggleDrawer\<close>\<close>



subsection \<open>C10: what closing a door leaves alone\<close>

text \<open>
  Claim C10. When an open door is toggled closed, only its dependent drawers whose state
  is open are force-closed. Every drawer that is closed, and every drawer behind another
  door, keeps its state and its position at every moment of the operation and is never
  animated; every open drawer behind the door is closed when the operation has ended.
\<close>

theorem C10_closing_door_frame:
  assumes "registered st" and "quiet st"
    and "item (doors st) index = Some door"
    and "truthy (map_of (doorStates st) door)"
  shows "(\<forall>j drawer h. item (drawers st) j = Some drawer \<and>
            (\<not> truthy (map_of (drawerStates st) drawer) \<or> drawerToDoorMap j \<noteq> Some index) \<longrightarrow>
            map_of (drawerStates (run_until h (state_of (toggleDoor index st)))) drawer
              = map_of (drawerStates st) drawer \<and>
            position (run_until h (state_of (toggleDoor index st))) drawer = position st drawer \<and>
            \<not> in_flight (run_until h (state_of (toggleDoor index st))) drawer) \<and>
         (\<forall>j drawer. item (drawers st) j = Some drawer \<and>
            truthy (map_of (drawerStates st) drawer) \<and> drawerToDoorMap j = Some index \<longrightarrow>
            map_of (drawerStates (settle (state_of (toggleDoor index st)))) drawer = Some False)"
proof -
  let ?st' = "st\<lparr>pending := door_events st index\<rparr>"
  have r: "state_of (toggleDoor index st) = ?st'"
    using toggleDoor_quiet [OF assms(2)] by simp
  have dist: "distinct (doors st)" "distinct (drawers st)" "set (doors st) \<inter> set (drawers st) = {}"
    using assms(1) by (auto simp: registered_def)
  have door: "index < length (doors st)" "doors st ! index = door" "door \<in> set (doors st)"
    using assms(3) by (auto simp: item_Some)
  have frame: "map_of (drawerStates (run_until h ?st')) drawer = map_of (drawerStates st) drawer \<and>
      position (run_until h ?st') drawer = position st drawer \<and>
      \<not> in_flight (run_until h ?st') drawer"
    if j: "item (drawers st) j = Some drawer"
      and other: "\<not> truthy (map_of (drawerStates st) drawer) \<or> drawerToDoorMap j \<noteq> Some index"
    for j drawer h
  proof -
    have jl: "j < length (drawers st)" "drawers st ! j = drawer" "drawer \<in> set (drawers st)"
      using j by (auto simp: item_Some)
    have notdep: "j \<notin> set (dependents st index)" using other jl by (auto simp: dependents_mem)
    have away: "mover (snd p) \<noteq> drawer \<and> fst (writes (snd p)) \<noteq> (Drawer, drawer)"
      if "p \<in> set (door_events st index)" for p
    proof -
      have dd: "door \<noteq> drawer" using dist(3) door(3) jl(3) by auto
      have "\<forall>j' \<in> set (dependents st index). drawers st ! j' \<noteq> drawer"
        using notdep dist(2) jl by (auto simp: dependents_mem nth_eq_iff_index_eq)
      then show ?thesis using that dd assms(3)
        by (auto simp: door_events_def Let_def split: if_splits)
    qed
    have "panel_state (run_until h ?st') (Drawer, drawer) = panel_state ?st' (Drawer, drawer)"
      by (rule state_not_before) (use away in auto)
    moreover have "position (run_until h ?st') drawer = position ?st' drawer"
      by (rule pos_not_before) (use away in auto)
    moreover have "\<not> in_flight (run_until h ?st') drawer"
      by (rule not_in_flight) (use away in auto)
    ultimately show ?thesis by simp
  qed
  have closed: "map_of (drawerStates (settle ?st')) drawer = Some False"
    if j: "item (drawers st) j = Some drawer"
      and dep: "truthy (map_of (drawerStates st) drawer)" "drawerToDoorMap j = Some index"
    for j drawer
  proof -
    have jl: "j < length (drawers st)" "drawers st ! j = drawer"
      using j by (auto simp: item_Some)
    then have jd: "j \<in> set (dependents st index)" using dep by (auto simp: dependents_mem)
    then have ev: "door_events st index =
        map (\<lambda>j. drawer_tween st j (drawers st ! j) (map_of (drawerStates st) (drawers st ! j)))
          (dependents st index)
        @ [(clock st + 800, Timeout (ProceedToggleDoor index door (map_of (doorStates st) door)))]"
      using assms(3,4) by (auto simp: door_events_def Let_def)
    have "panel_state (run_until None ?st') (Drawer, drawer) = Some False"
    proof (rule state_deadline)
      show "\<forall>p\<in>set (pending ?st'). fst (writes (snd p)) = (Drawer, drawer) \<longrightarrow> snd (writes (snd p)) = False"
        by (auto simp: ev dependents_mem)
      show "\<exists>p\<in>set (pending ?st'). fst (writes (snd p)) = (Drawer, drawer) \<and> due_by None (finish p)"
        using jd jl by (auto simp: ev due_by_def intro!: bexI [of _ j])
    qed
    then show ?thesis by (simp add: settle_def)
  qed
  show ?thesis unfolding r using frame closed by blast
qed

theorem C10_witness:
  "registered in_use \<and> quiet in_use \<and> item (doors in_use) 1 = Some 2 \<and>
   truthy (map_of (doorStates in_use) 2) \<and>
   item (drawers in_use) 4 = Some 24 \<and> \<not> truthy (map_of (drawerStates in_use) 24) \<and>
   map_of (drawerStates (run_until (Some 3000) (state_of (toggleDoor 1 in_use)))) 24
     = map_of (drawerStates in_use) 24 \<and>
   position (run_until (Some 3000) (state_of (toggleDoor 1 in_use))) 24 = position in_use 24 \<and>
   \<not> in_flight (run_until (Some 3000) (state_of (toggleDoor 1 in_use))) 24 \<and>
   item (drawers in_use) 2 = Some 22 \<and> truthy (map_of (drawerStates in_use) 22) \<and>
   drawerToDoorMap 2 = Some 1 \<and>
   map_of (drawerStates (settle (state_of (toggleDoor 1 in_use)))) 22 = Some False"
proof -
  have h1: "registered in_use" by code_simp
  have h2: "quiet in_use" by code_simp
  have h3: "item (doors in_use) 1 = Some 2" by code_simp
  have h4: "truthy (map_of (doorStates in_use) 2)" by code_simp
  have a: "item (drawers in_use) 4 = Some 24 \<and> \<not> truthy (map_of (drawerStates in_use) 24)"
    by code_simp
  have b: "item (drawers in_use) 2 = Some 22 \<and> truthy (map_of (drawerStates in_use) 22) \<and>
      drawerToDoorMap 2 = Some 1"
    by code_simp
  note c = C10_closing_door_frame [OF h1 h2 h3 h4]
  have "map_of (drawerStates (run_until (Some 3000) (state_of (toggleDoor 1 in_use)))) 24
          = map_of (drawerStates in_use) 24 \<and>
        position (run_until (Some 3000) (state_of (toggleDoor 1 in_use))) 24 = position in_use 24 \<and>
        \<not> in_flight (run_until (Some 3000) (state_of (toggleDoor 1 in_use))) 24"
    using c a by blast
  moreover have "map_of (drawerStates (settle (state_of (toggleDoor 1 in_use)))) 22 = Some False"
    using c b by blast
  ultimately show ?thesis using h1 h2 h3 h4 a b by simp
qed

end
